theory Spec2Isabelle
  imports Complex_Main
begin

section \<open>Video reference resolver: \<open>getVideoId\<close>\<close>

text \<open>
  \<open>getVideoId\<close> (in \<open>VideoDetail\<close>, file \<open>courses.$courseId.videos.$videoId.tsx\<close>) applies
  two regular expressions with \<open>String.prototype.match\<close>:
  \<^verbatim>\<open>/(?:youtu\.be\/|youtube\.com\/(?:embed\/|v\/|watch\?v=))([\w-]{11})/\<close> and
  \<^verbatim>\<open>/(?:vimeo\.com\/)(\d+)/\<close>.
  Neither expression is anchored and neither carries a flag, so \<open>match\<close> returns the
  leftmost position of the string at which the pattern matches, and \<open>\w\<close>, \<open>\d\<close> are the
  ASCII classes. A URL is a \<open>string\<close>; every character of both patterns is ASCII, so a
  character outside ASCII (whatever its encoding) matches nothing in them.
\<close>

definition is_digit :: "char \<Rightarrow> bool" where
  \<comment> \<open>the class \<open>\d\<close>\<close>
  "is_digit c = (c \<in> set ''0123456789'')"

definition is_word_or_dash :: "char \<Rightarrow> bool" where
  \<comment> \<open>the class \<open>[\w-]\<close>: letters, digits, underscore, hyphen\<close>
  "is_word_or_dash c =
     (c \<in> set ''abcdefghijklmnopqrstuvwxyzABCDEFGHIJKLMNOPQRSTUVWXYZ0123456789_-'')"

fun strip_prefix :: "string \<Rightarrow> string \<Rightarrow> string option" where
  \<comment> \<open>a literal of the pattern against the start of the input: the rest of the input\<close>
  "strip_prefix [] s = Some s"
| "strip_prefix (p # ps) [] = None"
| "strip_prefix (p # ps) (c # cs) = (if p = c then strip_prefix ps cs else None)"

definition youtube_prefixes :: "string list" where
  \<comment> \<open>the alternatives of the non-capturing group, in the order the pattern lists them\<close>
  "youtube_prefixes =
     [''youtu.be/'', ''youtube.com/embed/'', ''youtube.com/v/'', ''youtube.com/watch?v='']"

definition id11 :: "string \<Rightarrow> string option" where
  \<comment> \<open>the group \<open>([\w-]{11})\<close>: eleven class characters, nothing required after them\<close>
  "id11 s = (if 11 \<le> length s \<and> list_all is_word_or_dash (take 11 s)
             then Some (take 11 s) else None)"

fun first_alternative :: "string list \<Rightarrow> string \<Rightarrow> string option" where
  \<comment> \<open>alternation with backtracking: the first alternative after which the group matches\<close>
  "first_alternative [] s = None"
| "first_alternative (p # ps) s =
     (case strip_prefix p s of
        None \<Rightarrow> first_alternative ps s
      | Some rest \<Rightarrow> (case id11 rest of
                        Some i \<Rightarrow> Some i
                      | None \<Rightarrow> first_alternative ps s))"

definition youtube_at :: "string \<Rightarrow> string option" where
  \<comment> \<open>the YouTube pattern at the start of the input: capture group 1\<close>
  "youtube_at s = first_alternative youtube_prefixes s"

definition vimeo_at :: "string \<Rightarrow> string option" where
  \<comment> \<open>the Vimeo pattern at the start of the input: \<open>\d+\<close> is greedy\<close>
  "vimeo_at s =
     (case strip_prefix ''vimeo.com/'' s of
        None \<Rightarrow> None
      | Some rest \<Rightarrow> (let d = takeWhile is_digit rest in if d = [] then None else Some d))"

fun regex_search :: "(string \<Rightarrow> 'a option) \<Rightarrow> string \<Rightarrow> 'a option" where
  \<comment> \<open>an unanchored match: try every start position from the left\<close>
  "regex_search m [] = m []"
| "regex_search m (c # cs) =
     (case m (c # cs) of Some r \<Rightarrow> Some r | None \<Rightarrow> regex_search m cs)"

definition youtubeMatch :: "string \<Rightarrow> string option" where
  "youtubeMatch url = regex_search youtube_at url"

definition vimeoMatch :: "string \<Rightarrow> string option" where
  "vimeoMatch url = regex_search vimeo_at url"

record video_info =
  info_type :: string
  info_id :: string

definition getVideoId :: "string \<Rightarrow> video_info option" where
  \<comment> \<open>\<open>None\<close> is the source's \<open>null\<close>\<close>
  "getVideoId url =
     (case youtubeMatch url of
        Some i \<Rightarrow> Some \<lparr>info_type = ''youtube'', info_id = i\<rparr>
      | None \<Rightarrow>
         (case vimeoMatch url of
            Some i \<Rightarrow> Some \<lparr>info_type = ''vimeo'', info_id = i\<rparr>
          | None \<Rightarrow> None))"

text \<open>
  The specification's wording of what a URL "contains": one of the four YouTube forms
  followed by eleven identifier characters, or \<open>vimeo.com/\<close> followed by digits.
\<close>

definition contains_youtube_form :: "string \<Rightarrow> string \<Rightarrow> bool" where
  "contains_youtube_form url i =
     (\<exists>pre p post. p \<in> set youtube_prefixes \<and> url = pre @ p @ i @ post \<and>
        length i = 11 \<and> list_all is_word_or_dash i)"

definition contains_vimeo_form :: "string \<Rightarrow> bool" where
  "contains_vimeo_form url =
     (\<exists>pre d post. url = pre @ ''vimeo.com/'' @ d @ post \<and> d \<noteq> [] \<and> list_all is_digit d)"

section \<open>Progress store: the \<open>action\<close> of the video page\<close>

text \<open>
  The table \<open>UserVideoProgress\<close> of \<open>schema.prisma\<close> (\<open>user_video_progress\<close> in the SQL
  migration): a primary key \<open>id\<close>, the pair \<open>userId\<close>, \<open>videoId\<close> declared
  \<open>@@unique\<close>, both columns foreign keys into \<open>User\<close> and \<open>Video\<close>, and \<open>updatedAt\<close>
  declared \<open>@default(now()) @updatedAt\<close>: set to the time of the call when a row is
  created and again on every update. Of the tables \<open>User\<close> and \<open>Video\<close> the action only
  needs to know which ids exist.
\<close>

type_synonym timestamp = nat

record UserVideoProgress =
  row_id :: string
  userId :: string
  videoId :: string
  completed :: bool
  updatedAt :: timestamp

record database =
  db_users :: "string set"
  db_videos :: "string set"
  db_progress :: "UserVideoProgress list"

datatype prisma_error =
    UniqueConstraintFailed
  | ForeignKeyConstraintFailed
  | RecordToUpdateNotFound

definition findUnique :: "database \<Rightarrow> string \<Rightarrow> string \<Rightarrow> UserVideoProgress option" where
  \<comment> \<open>\<open>prisma.userVideoProgress.findUnique({ where: { userId_videoId: ... } })\<close>\<close>
  "findUnique db u v = find (\<lambda>p. userId p = u \<and> videoId p = v) (db_progress db)"

definition update :: "timestamp \<Rightarrow> string \<Rightarrow> bool \<Rightarrow> database
     \<Rightarrow> (prisma_error + UserVideoProgress) \<times> database" where
  \<comment> \<open>\<open>prisma.userVideoProgress.update({ where: { id }, data: { completed } })\<close>\<close>
  "update now i c db =
     (case find (\<lambda>p. row_id p = i) (db_progress db) of
        None \<Rightarrow> (Inl RecordToUpdateNotFound, db)
      | Some p \<Rightarrow>
          (Inr (p\<lparr>completed := c, updatedAt := now\<rparr>),
           db\<lparr>db_progress :=
                 map (\<lambda>q. if row_id q = i then q\<lparr>completed := c, updatedAt := now\<rparr> else q)
                   (db_progress db)\<rparr>))"

definition create :: "timestamp \<Rightarrow> string \<Rightarrow> string \<Rightarrow> string \<Rightarrow> bool \<Rightarrow> database
     \<Rightarrow> (prisma_error + UserVideoProgress) \<times> database" where
  \<comment> \<open>\<open>prisma.userVideoProgress.create({ data: { userId, videoId, completed } })\<close>; the
      id is the \<open>cuid()\<close> generated for the call. The insert is checked against the
      primary key and the unique pair, then against the two foreign keys; a rejected
      insert leaves the table as it was.\<close>
  "create now cuid u v c db =
     (if cuid \<in> row_id ` set (db_progress db) then (Inl UniqueConstraintFailed, db)
      else if list_ex (\<lambda>p. userId p = u \<and> videoId p = v) (db_progress db)
        then (Inl UniqueConstraintFailed, db)
      else if u \<notin> db_users db \<or> v \<notin> db_videos db then (Inl ForeignKeyConstraintFailed, db)
      else
        (let p = \<lparr>row_id = cuid, userId = u, videoId = v, completed = c, updatedAt = now\<rparr>
         in (Inr p, db\<lparr>db_progress := db_progress db @ [p]\<rparr>)))"

definition setCompletion :: "timestamp \<Rightarrow> string \<Rightarrow> string \<Rightarrow> string \<Rightarrow> bool \<Rightarrow> database
     \<Rightarrow> (prisma_error + UserVideoProgress) \<times> database" where
  \<comment> \<open>lines 85 to 108 of \<open>action\<close>: find the existing progress, update it or create one\<close>
  "setCompletion now cuid u v c db =
     (case findUnique db u v of
        Some existingProgress \<Rightarrow> update now (row_id existingProgress) c db
      | None \<Rightarrow> create now cuid u v c db)"

datatype form_value = StringValue string | FileValue

record request =
  session_user :: "string option"
  params_videoId :: "string option"
  formData :: "(string \<times> form_value) list"

datatype response =
    Redirect string
  | Json_error string nat
  | Json_success
  | Uncaught prisma_error

definition form_get :: "(string \<times> form_value) list \<Rightarrow> string \<Rightarrow> form_value option" where
  \<comment> \<open>\<open>FormData.get\<close>: the first value under the name, or \<open>null\<close>\<close>
  "form_get form name = map_of form name"

definition action :: "timestamp \<Rightarrow> string \<Rightarrow> request \<Rightarrow> database \<Rightarrow> response \<times> database" where
  \<comment> \<open>\<open>requireUser\<close> redirects to \<open>/login\<close> without a session user; \<open>!videoId\<close> holds for
      a missing and for an empty parameter; \<open>flag\<close> is the source's \<open>completed\<close>; an
      exception of the storage calls is not caught\<close>
  "action now cuid req db =
     (case session_user req of
        None \<Rightarrow> (Redirect ''/login'', db)
      | Some uid \<Rightarrow>
         (case params_videoId req of
            None \<Rightarrow> (Json_error ''Video ID is required'' 400, db)
          | Some vid \<Rightarrow>
             if vid = [] then (Json_error ''Video ID is required'' 400, db)
             else
               (let flag = (form_get (formData req) ''completed'' = Some (StringValue ''true''))
                in case setCompletion now cuid uid vid flag db of
                     (Inl e, db') \<Rightarrow> (Uncaught e, db')
                   | (Inr _, db') \<Rightarrow> (Json_success, db'))))"

fun setCompletion_calls :: "(timestamp \<times> string) list \<Rightarrow> string \<Rightarrow> string \<Rightarrow> bool \<Rightarrow> database
     \<Rightarrow> (prisma_error + UserVideoProgress) list \<times> database" where
  \<comment> \<open>one call after the other with the same arguments, each at its own time and with
      its own generated id; the results of the calls and the final store\<close>
  "setCompletion_calls [] u v c db = ([], db)"
| "setCompletion_calls ((now, cuid) # es) u v c db =
     (let (r, db') = setCompletion now cuid u v c db;
          (rs, db'') = setCompletion_calls es u v c db'
      in (r # rs, db''))"

text \<open>The constraints the schema declares on the table, and views of a store.\<close>

definition primary_key_ok :: "database \<Rightarrow> bool" where
  "primary_key_ok db = distinct (map row_id (db_progress db))"

definition unique_userId_videoId :: "database \<Rightarrow> bool" where
  "unique_userId_videoId db = distinct (map (\<lambda>p. (userId p, videoId p)) (db_progress db))"

definition foreign_keys_ok :: "database \<Rightarrow> bool" where
  "foreign_keys_ok db =
     list_all (\<lambda>p. userId p \<in> db_users db \<and> videoId p \<in> db_videos db) (db_progress db)"

definition records_for :: "database \<Rightarrow> string \<Rightarrow> string \<Rightarrow> UserVideoProgress list" where
  "records_for db u v = filter (\<lambda>p. userId p = u \<and> videoId p = v) (db_progress db)"

definition other_records :: "database \<Rightarrow> string \<Rightarrow> string \<Rightarrow> UserVideoProgress list" where
  \<comment> \<open>the records of every other pair, in table order\<close>
  "other_records db u v = filter (\<lambda>p. \<not> (userId p = u \<and> videoId p = v)) (db_progress db)"

definition with_updatedAt :: "string \<Rightarrow> string \<Rightarrow> timestamp \<Rightarrow> database \<Rightarrow> database" where
  \<comment> \<open>the store with \<open>updatedAt\<close> of the pair's record replaced and nothing else changed\<close>
  "with_updatedAt u v t db =
     db\<lparr>db_progress :=
          map (\<lambda>q. if userId q = u \<and> videoId q = v then q\<lparr>updatedAt := t\<rparr> else q)
            (db_progress db)\<rparr>"

definition touch :: "timestamp \<Rightarrow> string \<Rightarrow> string \<Rightarrow> bool \<Rightarrow> UserVideoProgress list
     \<Rightarrow> UserVideoProgress list" where
  \<comment> \<open>the rows after an update of the rows of the pair\<close>
  "touch now u v c rows =
     map (\<lambda>q. if userId q = u \<and> videoId q = v then q\<lparr>completed := c, updatedAt := now\<rparr> else q)
       rows"

text \<open>A store and requests to run the action on.\<close>

definition example_db :: database where
  "example_db = \<lparr>db_users = {''u1''}, db_videos = {''v1'', ''v2''},
     db_progress = [\<lparr>row_id = ''c0'', userId = ''u1'', videoId = ''v2'', completed = False,
                     updatedAt = 5\<rparr>]\<rparr>"


section \<open>JavaScript numbers\<close>

text \<open>
  The Dashboard loader divides and multiplies counts as JavaScript Numbers, that is in
  IEEE 754 binary64 with round to nearest, ties to even. Only non-negative operands
  occur there, so \<open>number\<close> carries the non-negative values: the finite ones as exact
  rationals, \<open>Infinity\<close> and \<open>NaN\<close>. The counters themselves are integers far below
  \<open>2^53\<close>, which binary64 holds exactly; they are kept as \<open>nat\<close>.
\<close>

datatype number = Num rat | Infinity | NaN

function floor_log2 :: "rat \<Rightarrow> int" where
  \<comment> \<open>for \<open>x > 0\<close> the exponent \<open>e\<close> with \<open>2^e \<le> x < 2^(e+1)\<close>\<close>
  "floor_log2 x =
     (if x \<le> 0 then 0
      else if x < 1 then floor_log2 (2 * x) - 1
      else if 2 \<le> x then floor_log2 (x / 2) + 1
      else 0)"
  by pat_completeness auto
termination
proof (relation "measure (\<lambda>x. if x < 1 then 1 + nat \<lfloor>1 / x\<rfloor> else nat \<lfloor>x\<rfloor>)")
  show "wf (measure (\<lambda>x::rat. if x < 1 then 1 + nat \<lfloor>1 / x\<rfloor> else nat \<lfloor>x\<rfloor>))" by simp
next
  fix x :: rat
  assume a: "\<not> x \<le> 0" "x < 1"
  show "(2 * x, x) \<in> measure (\<lambda>x. if x < 1 then 1 + nat \<lfloor>1 / x\<rfloor> else nat \<lfloor>x\<rfloor>)"
  proof (cases "2 * x < 1")
    case True
    have y: "2 \<le> 1 / x" using a True by (simp add: field_simps)
    then have "(1 / x) / 2 \<le> 1 / x - 1" by simp
    then have "\<lfloor>(1 / x) / 2\<rfloor> \<le> \<lfloor>1 / x - 1\<rfloor>" by (rule floor_mono)
    then have "\<lfloor>1 / (2 * x)\<rfloor> < \<lfloor>1 / x\<rfloor>" by (simp add: mult.commute)
    moreover have "0 \<le> \<lfloor>1 / (2 * x)\<rfloor>" using a by simp
    ultimately show ?thesis using True a by simp
  next
    case False
    then have "\<lfloor>2 * x\<rfloor> = 1" using a by (simp add: floor_eq_iff)
    moreover have "1 \<le> \<lfloor>1 / x\<rfloor>" using a by (simp add: le_floor_iff field_simps)
    ultimately show ?thesis using False a by simp
  qed
next
  fix x :: rat
  assume a: "\<not> x \<le> 0" "\<not> x < 1" "2 \<le> x"
  then have "x / 2 \<le> x - 1" by simp
  then have "\<lfloor>x / 2\<rfloor> \<le> \<lfloor>x - 1\<rfloor>" by (rule floor_mono)
  then have "\<lfloor>x / 2\<rfloor> < \<lfloor>x\<rfloor>" by simp
  moreover have "1 \<le> \<lfloor>x / 2\<rfloor>" using a by (simp add: le_floor_iff)
  ultimately show "(x / 2, x) \<in> measure (\<lambda>x. if x < 1 then 1 + nat \<lfloor>1 / x\<rfloor> else nat \<lfloor>x\<rfloor>)"
    using a by simp
qed

declare floor_log2.simps [simp del]

definition pow2 :: "int \<Rightarrow> rat" where
  "pow2 e = (if 0 \<le> e then 2 ^ nat e else 1 / 2 ^ nat (- e))"

definition round_half_even :: "rat \<Rightarrow> int" where
  "round_half_even r =
     (let f = \<lfloor>r\<rfloor>; d = r - of_int f
      in if d < 1 / 2 then f else if 1 / 2 < d then f + 1 else if even f then f else f + 1)"

definition round64 :: "rat \<Rightarrow> number" where
  \<comment> \<open>the binary64 value nearest a non-negative rational: 53 significant bits, the
      exponent no smaller than \<open>-1022\<close> (subnormals below), overflow to \<open>Infinity\<close>\<close>
  "round64 x =
     (if x \<le> 0 then Num 0
      else let e = max (floor_log2 x) (- 1022);
               q = pow2 (e - 52);
               r = of_int (round_half_even (x / q)) * q
           in if pow2 1024 \<le> r then Infinity else Num r)"

fun number_divide :: "number \<Rightarrow> number \<Rightarrow> number" where
  \<comment> \<open>the operator \<open>/\<close>\<close>
  "number_divide NaN _ = NaN"
| "number_divide _ NaN = NaN"
| "number_divide Infinity Infinity = NaN"
| "number_divide Infinity (Num y) = Infinity"
| "number_divide (Num x) Infinity = Num 0"
| "number_divide (Num x) (Num y) =
     (if y = 0 then (if x = 0 then NaN else Infinity) else round64 (x / y))"

fun number_times :: "number \<Rightarrow> number \<Rightarrow> number" where
  \<comment> \<open>the operator \<open>*\<close>\<close>
  "number_times NaN _ = NaN"
| "number_times _ NaN = NaN"
| "number_times Infinity Infinity = Infinity"
| "number_times Infinity (Num y) = (if y = 0 then NaN else Infinity)"
| "number_times (Num x) Infinity = (if x = 0 then NaN else Infinity)"
| "number_times (Num x) (Num y) = round64 (x * y)"

definition number_of_count :: "nat \<Rightarrow> number" where
  "number_of_count n = Num (of_nat n)"

section \<open>Progress aggregation: the Dashboard \<open>loader\<close>\<close>

text \<open>
  The loader fetches the user with the enrolled courses (each with its chapters and
  their videos) and the user's progress rows, then computes the percentages in lines
  292 to 322. \<open>userWithCourses\<close> is the fetched object, \<open>None\<close> when the user is missing.
\<close>

record Video =
  video_id :: string
  videoUrl :: string

record Chapter =
  chapter_id :: string
  videos :: "Video list"

record Course =
  course_id :: string
  title :: string
  chapters :: "Chapter list"

record UserCourse =
  course :: Course

record UserWithCourses =
  user_id :: string
  courses :: "UserCourse list"
  progress :: "UserVideoProgress list"

record CourseWithProgress = Course +
  course_progress :: number

record loader_data =
  data_user :: UserWithCourses
  overallProgress :: number
  data_courses :: "CourseWithProgress list"

definition video_completed :: "UserVideoProgress list \<Rightarrow> Video \<Rightarrow> bool" where
  \<comment> \<open>\<open>progress.find(p => p.videoId === video.id)?.completed\<close>: the first row of the video\<close>
  "video_completed ps video =
     (case find (\<lambda>p. videoId p = video_id video) ps of
        None \<Rightarrow> False
      | Some videoProgress \<Rightarrow> completed videoProgress)"

definition chapter_step :: "UserVideoProgress list \<Rightarrow> Chapter \<Rightarrow> nat \<times> nat \<Rightarrow> nat \<times> nat" where
  \<comment> \<open>the body of \<open>chapters.forEach\<close> on the pair (courseTotalVideos, courseCompletedVideos)\<close>
  "chapter_step ps chapter = (\<lambda>(courseTotalVideos, courseCompletedVideos).
     (courseTotalVideos + length (videos chapter),
      fold (\<lambda>video n. if video_completed ps video then n + 1 else n)
        (videos chapter) courseCompletedVideos))"

definition course_counts :: "UserVideoProgress list \<Rightarrow> Course \<Rightarrow> nat \<times> nat" where
  "course_counts ps c = fold (chapter_step ps) (chapters c) (0, 0)"

fun courses_map :: "UserVideoProgress list \<Rightarrow> UserCourse list \<Rightarrow> nat \<times> nat
     \<Rightarrow> CourseWithProgress list \<times> (nat \<times> nat)" where
  \<comment> \<open>\<open>userWithCourses.courses.map\<close>, threading the outer pair (totalVideos, completedVideos)\<close>
  "courses_map ps [] totals = ([], totals)"
| "courses_map ps (userCourse # rest) (totalVideos, completedVideos) =
     (let (courseTotalVideos, courseCompletedVideos) = course_counts ps (course userCourse);
          totalVideos' = totalVideos + courseTotalVideos;
          completedVideos' = completedVideos + courseCompletedVideos;
          courseProgress =
            (if courseTotalVideos > 0
             then number_times
                    (number_divide (number_of_count courseCompletedVideos)
                       (number_of_count courseTotalVideos))
                    (Num 100)
             else Num 0);
          (mapped, totals') = courses_map ps rest (totalVideos', completedVideos')
      in (Course.extend (course userCourse) (CourseWithProgress.fields courseProgress) # mapped,
          totals'))"

definition loader :: "UserWithCourses option \<Rightarrow> response + loader_data" where
  "loader fetched =
     (case fetched of
        None \<Rightarrow> Inl (Json_error ''User not found'' 404)
      | Some userWithCourses \<Rightarrow>
         (let (coursesWithProgress, (totalVideos, completedVideos)) =
                courses_map (progress userWithCourses) (courses userWithCourses) (0, 0);
              overallProgress =
                (if totalVideos > 0
                 then number_times
                        (number_divide (number_of_count completedVideos)
                           (number_of_count totalVideos))
                        (Num 100)
                 else Num 0)
          in Inr \<lparr>data_user = userWithCourses, overallProgress = overallProgress,
                  data_courses = coursesWithProgress\<rparr>))"

text \<open>
  The specification's wording: the total of a course is the count of videos across all
  its chapters, its completed count the number of those videos for which a progress
  record with \<open>completed = true\<close> exists; a percentage is \<open>completed / total * 100\<close>, and
  \<open>0\<close> for a total of \<open>0\<close>; the arithmetic mean is the other aggregate it speaks of.
\<close>

definition course_videos :: "Course \<Rightarrow> Video list" where
  "course_videos c = concat (map videos (chapters c))"

definition course_total :: "Course \<Rightarrow> nat" where
  "course_total c = length (course_videos c)"

definition course_completed :: "UserVideoProgress list \<Rightarrow> Course \<Rightarrow> nat" where
  "course_completed ps c =
     length (filter (\<lambda>v. list_ex (\<lambda>p. videoId p = video_id v \<and> completed p) ps)
       (course_videos c))"

definition percentage :: "nat \<Rightarrow> nat \<Rightarrow> number" where
  "percentage n_completed n_total =
     (if n_total > 0
      then number_times (number_divide (number_of_count n_completed) (number_of_count n_total))
             (Num 100)
      else Num 0)"

definition exact_percentage :: "nat \<Rightarrow> nat \<Rightarrow> rat" where
  \<comment> \<open>\<open>completed / total * 100\<close> as an exact rational, \<open>0\<close> for a total of \<open>0\<close>\<close>
  "exact_percentage n_completed n_total =
     (if n_total > 0 then of_nat n_completed / of_nat n_total * 100 else 0)"

definition within_rounding :: "number \<Rightarrow> rat \<Rightarrow> bool" where
  \<comment> \<open>a finite number no further than \<open>2^-45\<close> from the exact value: the two roundings of
      a quotient in \<open>[0, 1]\<close> and of its product with 100 cannot move it further\<close>
  "within_rounding p x = (case p of Num r \<Rightarrow> \<bar>r - x\<bar> \<le> 1 / 2 ^ 45 | _ \<Rightarrow> False)"

definition one_record_per_video :: "UserVideoProgress list \<Rightarrow> bool" where
  \<comment> \<open>the rows of one user: at most one per video\<close>
  "one_record_per_video ps = distinct (map videoId ps)"

definition mean_of_percentages :: "number list \<Rightarrow> number" where
  "mean_of_percentages ps =
     (if list_all (\<lambda>p. p \<noteq> NaN \<and> p \<noteq> Infinity) ps \<and> ps \<noteq> []
      then Num (sum_list (map (\<lambda>p. case p of Num r \<Rightarrow> r | _ \<Rightarrow> 0) ps) / of_nat (length ps))
      else NaN)"

definition counted_completed :: "UserVideoProgress list \<Rightarrow> Course \<Rightarrow> nat" where
  \<comment> \<open>what the loader counts: the videos whose first progress row is completed\<close>
  "counted_completed ps c = length (filter (video_completed ps) (course_videos c))"

definition within_0_100 :: "number \<Rightarrow> bool" where
  "within_0_100 p = (case p of Num r \<Rightarrow> 0 \<le> r \<and> r \<le> 100 | _ \<Rightarrow> False)"

text \<open>
  Courses and users to run the loader on: course A has four videos, B one, C two, D
  three and E none.
\<close>

definition example_video :: "string \<Rightarrow> Video" where
  "example_video i = \<lparr>video_id = i, videoUrl = ''https://youtu.be/dQw4w9WgXcQ''\<rparr>"

definition example_row :: "string \<Rightarrow> bool \<Rightarrow> UserVideoProgress" where
  "example_row v c =
     \<lparr>row_id = ''p-'' @ v, userId = ''u1'', videoId = v, completed = c, updatedAt = 0\<rparr>"

definition course_A :: Course where
  "course_A = \<lparr>course_id = ''A'', title = ''Course A'', chapters =
     [\<lparr>chapter_id = ''A1'',
       videos = [example_video ''a1'', example_video ''a2'', example_video ''a3'']\<rparr>,
      \<lparr>chapter_id = ''A2'', videos = [example_video ''a4'']\<rparr>]\<rparr>"

definition course_B :: Course where
  "course_B = \<lparr>course_id = ''B'', title = ''Course B'', chapters =
     [\<lparr>chapter_id = ''B1'', videos = [example_video ''b1'']\<rparr>]\<rparr>"

definition course_C :: Course where
  "course_C = \<lparr>course_id = ''C'', title = ''Course C'', chapters =
     [\<lparr>chapter_id = ''C1'', videos = [example_video ''c1'', example_video ''c2'']\<rparr>]\<rparr>"

definition course_D :: Course where
  "course_D = \<lparr>course_id = ''D'', title = ''Course D'', chapters =
     [\<lparr>chapter_id = ''D1'', videos = [example_video ''d1'', example_video ''d2'']\<rparr>,
      \<lparr>chapter_id = ''D2'', videos = [example_video ''d3'']\<rparr>]\<rparr>"

definition course_E :: Course where
  "course_E = \<lparr>course_id = ''E'', title = ''Course E'', chapters =
     [\<lparr>chapter_id = ''E1'', videos = []\<rparr>]\<rparr>"

definition user_AB :: UserWithCourses where
  "user_AB = \<lparr>user_id = ''u1'', courses = [\<lparr>course = course_A\<rparr>, \<lparr>course = course_B\<rparr>],
     progress = [example_row ''a1'' True, example_row ''a2'' False, example_row ''a4'' True,
                 example_row ''b1'' True]\<rparr>"

definition user_AC :: UserWithCourses where
  "user_AC = \<lparr>user_id = ''u1'', courses = [\<lparr>course = course_A\<rparr>, \<lparr>course = course_C\<rparr>],
     progress = [example_row ''a1'' True, example_row ''a4'' True, example_row ''c2'' True]\<rparr>"

definition user_DE :: UserWithCourses where
  "user_DE = \<lparr>user_id = ''u1'', courses = [\<lparr>course = course_D\<rparr>, \<lparr>course = course_E\<rparr>],
     progress = [example_row ''d2'' True, example_row ''d3'' False]\<rparr>"

definition user_E :: UserWithCourses where
  "user_E = \<lparr>user_id = ''u1'', courses = [\<lparr>course = course_E\<rparr>], progress = []\<rparr>"

section \<open>The resolver: what the search finds\<close>

lemma strip_prefix_Some: "strip_prefix p s = Some r \<longleftrightarrow> s = p @ r"
  by (induction p s rule: strip_prefix.induct) auto

lemma strip_prefix_None: "strip_prefix p s = None \<longleftrightarrow> (\<forall>r. s \<noteq> p @ r)"
  by (induction p s rule: strip_prefix.induct) auto

lemma id11_Some: "id11 r = Some i \<longleftrightarrow> (\<exists>post. r = i @ post \<and> length i = 11 \<and> list_all is_word_or_dash i)"
proof
  assume "id11 r = Some i"
  then have a: "11 \<le> length r" "list_all is_word_or_dash (take 11 r)" "i = take 11 r"
    by (auto simp: id11_def split: if_splits)
  then have "r = i @ drop 11 r" "length i = 11" by auto
  with a show "\<exists>post. r = i @ post \<and> length i = 11 \<and> list_all is_word_or_dash i" by blast
next
  assume "\<exists>post. r = i @ post \<and> length i = 11 \<and> list_all is_word_or_dash i"
  then show "id11 r = Some i" by (auto simp: id11_def)
qed

lemma first_alternative_Some:
  "first_alternative ps s = Some i \<Longrightarrow> \<exists>p\<in>set ps. \<exists>r. s = p @ r \<and> id11 r = Some i"
  by (induction ps) (auto simp: strip_prefix_Some split: option.splits)

lemma first_alternative_None:
  "first_alternative ps s = None \<longleftrightarrow> (\<forall>p\<in>set ps. \<forall>r. s = p @ r \<longrightarrow> id11 r = None)"
  by (induction ps) (auto simp: strip_prefix_Some strip_prefix_None split: option.splits)

lemma regex_search_Some:
  "regex_search m s = Some r \<Longrightarrow> \<exists>pre suf. s = pre @ suf \<and> m suf = Some r"
proof (induction s)
  case Nil
  then show ?case by simp
next
  case (Cons c cs)
  show ?case
  proof (cases "m (c # cs)")
    case None
    with Cons obtain pre suf where "cs = pre @ suf" "m suf = Some r" by auto
    then have "c # cs = (c # pre) @ suf \<and> m suf = Some r" by simp
    then show ?thesis by blast
  next
    case (Some a)
    with Cons.prems have "c # cs = [] @ (c # cs) \<and> m (c # cs) = Some r" by simp
    then show ?thesis by blast
  qed
qed

lemma regex_search_None:
  "regex_search m s = None \<longleftrightarrow> (\<forall>pre suf. s = pre @ suf \<longrightarrow> m suf = None)"
proof (induction s)
  case Nil
  then show ?case by simp
next
  case (Cons c cs)
  show ?case
  proof
    assume a: "regex_search m (c # cs) = None"
    then have h: "m (c # cs) = None" "regex_search m cs = None"
      by (auto split: option.splits)
    show "\<forall>pre suf. c # cs = pre @ suf \<longrightarrow> m suf = None"
    proof (intro allI impI)
      fix pre suf assume e: "c # cs = pre @ suf"
      show "m suf = None"
      proof (cases pre)
        case Nil
        with e h show ?thesis by simp
      next
        case (Cons a pre')
        with e have "cs = pre' @ suf" by simp
        with h Cons.IH show ?thesis by blast
      qed
    qed
  next
    assume a: "\<forall>pre suf. c # cs = pre @ suf \<longrightarrow> m suf = None"
    then have "m (c # cs) = None" by (metis append_Nil)
    moreover have "\<forall>pre suf. cs = pre @ suf \<longrightarrow> m suf = None"
      using a by (metis append_Cons)
    ultimately show "regex_search m (c # cs) = None" using Cons.IH by simp
  qed
qed

lemma youtubeMatch_sound: "youtubeMatch url = Some i \<Longrightarrow> contains_youtube_form url i"
proof -
  assume "youtubeMatch url = Some i"
  then obtain pre suf where s: "url = pre @ suf" "youtube_at suf = Some i"
    unfolding youtubeMatch_def by (blast dest: regex_search_Some)
  then obtain p r where p: "p \<in> set youtube_prefixes" "suf = p @ r" "id11 r = Some i"
    unfolding youtube_at_def by (blast dest: first_alternative_Some)
  then obtain post where "r = i @ post" "length i = 11" "list_all is_word_or_dash i"
    by (auto simp: id11_Some)
  with s p show ?thesis unfolding contains_youtube_form_def by blast
qed

lemma youtubeMatch_complete: "contains_youtube_form url i \<Longrightarrow> \<exists>j. youtubeMatch url = Some j"
proof -
  assume "contains_youtube_form url i"
  then obtain pre p post where h: "p \<in> set youtube_prefixes" "url = pre @ p @ i @ post"
     "length i = 11" "list_all is_word_or_dash i"
    unfolding contains_youtube_form_def by blast
  then have "id11 (i @ post) = Some i" by (auto simp: id11_Some)
  then have "youtube_at (p @ i @ post) \<noteq> None"
    unfolding youtube_at_def using h(1) by (auto simp: first_alternative_None)
  then have "regex_search youtube_at url \<noteq> None"
    using h(2) by (auto simp: regex_search_None)
  then show ?thesis unfolding youtubeMatch_def by auto
qed

lemma vimeo_at_Some:
  "vimeo_at s = Some d \<longleftrightarrow>
     (\<exists>rest. s = ''vimeo.com/'' @ rest \<and> d = takeWhile is_digit rest \<and> d \<noteq> [])"
proof (cases "strip_prefix ''vimeo.com/'' s")
  case None
  then have "\<forall>r. s \<noteq> ''vimeo.com/'' @ r" by (metis strip_prefix_None)
  moreover have "vimeo_at s = None" using None by (simp only: vimeo_at_def option.case)
  ultimately show ?thesis by auto
next
  case (Some rest)
  then have e: "s = ''vimeo.com/'' @ rest" by (simp only: strip_prefix_Some)
  have "vimeo_at s = (if takeWhile is_digit rest = [] then None else Some (takeWhile is_digit rest))"
    using Some by (simp only: vimeo_at_def option.case Let_def)
  then show ?thesis using e by auto
qed

lemma vimeoMatch_sound: "vimeoMatch url = Some d \<Longrightarrow> contains_vimeo_form url"
proof -
  assume "vimeoMatch url = Some d"
  then obtain pre suf where s: "url = pre @ suf" "vimeo_at suf = Some d"
    unfolding vimeoMatch_def by (blast dest: regex_search_Some)
  then obtain rest where r: "suf = ''vimeo.com/'' @ rest" "d = takeWhile is_digit rest" "d \<noteq> []"
    by (auto simp: vimeo_at_Some)
  have "rest = d @ dropWhile is_digit rest" using r(2) by simp
  moreover have "list_all is_digit d" using r(2) by (simp add: list_all_iff) (meson set_takeWhileD)
  ultimately have "url = pre @ ''vimeo.com/'' @ d @ dropWhile is_digit rest \<and> d \<noteq> [] \<and> list_all is_digit d"
    using s(1) r(1,3) by simp
  then show ?thesis unfolding contains_vimeo_form_def by blast
qed

lemma vimeoMatch_complete: "contains_vimeo_form url \<Longrightarrow> \<exists>d. vimeoMatch url = Some d"
proof -
  assume "contains_vimeo_form url"
  then obtain pre d post where h: "url = pre @ ''vimeo.com/'' @ d @ post" "d \<noteq> []" "list_all is_digit d"
    unfolding contains_vimeo_form_def by blast
  have "takeWhile is_digit (d @ post) = d @ takeWhile is_digit post"
    using h(3) by (simp add: list_all_iff takeWhile_append2)
  then have "vimeo_at (''vimeo.com/'' @ d @ post) = Some (d @ takeWhile is_digit post)"
    using h(2) by (simp add: vimeo_at_Some)
  then have "regex_search vimeo_at url \<noteq> None"
    using h(1) by (auto simp: regex_search_None)
  then show ?thesis unfolding vimeoMatch_def by auto
qed

lemma prefix_has_slash: "p \<in> set youtube_prefixes \<Longrightarrow> CHR ''/'' \<in> set p"
  by (auto simp: youtube_prefixes_def)

lemma youtube_search_idchars:
  assumes "list_all is_word_or_dash s"
  shows "regex_search youtube_at s = None"
proof -
  have "youtube_at suf = None" if "s = pre @ suf" for pre suf
  proof -
    have "id11 r = None" if "p \<in> set youtube_prefixes" "suf = p @ r" for p r
    proof -
      have "CHR ''/'' \<in> set s" using that \<open>s = pre @ suf\<close> prefix_has_slash by auto
      then have "is_word_or_dash CHR ''/''" using assms by (simp add: list_all_iff)
      then show ?thesis by (simp add: is_word_or_dash_def)
    qed
    then show ?thesis unfolding youtube_at_def by (simp add: first_alternative_None)
  qed
  then show ?thesis by (simp add: regex_search_None)
qed

lemma vimeo_search_idchars:
  assumes "list_all is_word_or_dash s"
  shows "regex_search vimeo_at s = None"
proof -
  have "vimeo_at suf = None" if "s = pre @ suf" for pre suf
  proof (cases "vimeo_at suf")
    case None then show ?thesis .
  next
    case (Some d)
    then have "CHR ''/'' \<in> set s" using that by (auto simp: vimeo_at_Some)
    then have "is_word_or_dash CHR ''/''" using assms by (simp add: list_all_iff)
    then show ?thesis by (simp add: is_word_or_dash_def)
  qed
  then show ?thesis by (simp add: regex_search_None)
qed

lemma youtube_at_needs_y: "c \<noteq> CHR ''y'' \<Longrightarrow> youtube_at (c # s) = None"
  by (simp add: youtube_at_def youtube_prefixes_def)

lemma vimeo_at_needs_v: "c \<noteq> CHR ''v'' \<Longrightarrow> vimeo_at (c # s) = None"
  by (simp add: vimeo_at_def)

lemma youtube_search_skip:
  "CHR ''y'' \<notin> set pre \<Longrightarrow> s \<noteq> [] \<Longrightarrow>
     regex_search youtube_at (pre @ s) = regex_search youtube_at s"
  by (induction pre) (auto simp: youtube_at_needs_y)

lemma vimeo_search_skip:
  "CHR ''v'' \<notin> set pre \<Longrightarrow> s \<noteq> [] \<Longrightarrow>
     regex_search vimeo_at (pre @ s) = regex_search vimeo_at s"
  by (induction pre) (auto simp: vimeo_at_needs_v)

lemma youtube_search_form:
  assumes p: "p \<in> set youtube_prefixes" and seg: "list_all is_word_or_dash seg"
  shows "regex_search youtube_at (p @ seg) = id11 seg"
proof (cases "id11 seg")
  case None
  then show ?thesis
    using p youtube_search_idchars [OF seg]
    by (auto simp: youtube_at_def youtube_prefixes_def)
next
  case (Some i)
  then show ?thesis
    using p by (auto simp: youtube_at_def youtube_prefixes_def)
qed

lemma vimeo_search_form:
  assumes p: "p \<in> set youtube_prefixes" and seg: "list_all is_word_or_dash seg"
  shows "regex_search vimeo_at (p @ seg) = None"
  using p vimeo_search_idchars [OF seg]
  by (auto simp: vimeo_at_def youtube_prefixes_def)

lemma id11_idchars:
  "list_all is_word_or_dash seg \<Longrightarrow>
     id11 seg = (if 11 \<le> length seg then Some (take 11 seg) else None)"
  by (auto simp: id11_def list_all_iff dest: in_set_takeD)

lemma youtube_form_segment:
  assumes "p \<in> set youtube_prefixes" and "list_all is_word_or_dash seg"
    and "CHR ''y'' \<notin> set pre" and "CHR ''v'' \<notin> set pre"
  shows "getVideoId (pre @ p @ seg) =
           (if 11 \<le> length seg then Some \<lparr>info_type = ''youtube'', info_id = take 11 seg\<rparr>
            else None)"
proof -
  have ne: "p @ seg \<noteq> []" using assms(1) by (auto simp: youtube_prefixes_def)
  have y: "youtubeMatch (pre @ p @ seg) = id11 seg"
    unfolding youtubeMatch_def
    using youtube_search_skip [OF assms(3) ne] youtube_search_form [OF assms(1,2)] by simp
  have v: "vimeoMatch (pre @ p @ seg) = None"
    unfolding vimeoMatch_def
    using vimeo_search_skip [OF assms(4) ne] vimeo_search_form [OF assms(1,2)] by simp
  show ?thesis using y v by (simp add: getVideoId_def id11_idchars [OF assms(2)])
qed

lemmas resolver_eval = getVideoId_def youtubeMatch_def youtube_at_def youtube_prefixes_def
  id11_def is_word_or_dash_def vimeoMatch_def vimeo_at_def is_digit_def

lemma youtube_result_iff:
  "getVideoId url = Some \<lparr>info_type = ''youtube'', info_id = i\<rparr> \<longleftrightarrow> youtubeMatch url = Some i"
  by (auto simp: getVideoId_def split: option.splits)

lemma null_result_iff:
  "getVideoId url = None \<longleftrightarrow> youtubeMatch url = None \<and> vimeoMatch url = None"
  by (auto simp: getVideoId_def split: option.splits)

text \<open>
  Claim C5 as stated ends: a candidate id segment of any length other than exactly 11 is
  not recognized as YouTube. The pattern requires nothing after the eleventh character:
  \<open>https://youtu.be/dQw4w9WgXcQQ\<close> has a segment of 12 identifier characters and resolves
  as YouTube with the first 11 of them.
\<close>

theorem getVideoId_long_segment_counterexample:
  "length ''dQw4w9WgXcQQ'' = 12 \<and> list_all is_word_or_dash ''dQw4w9WgXcQQ'' \<and>
   getVideoId (''https://youtu.be/'' @ ''dQw4w9WgXcQQ'') =
     Some \<lparr>info_type = ''youtube'', info_id = ''dQw4w9WgXcQ''\<rparr>"
  by (simp add: resolver_eval)

text \<open>
  Claim C5, as amended. A URL resolves as YouTube exactly when it contains one of the
  four forms followed by 11 identifier characters, and the id returned is such an
  occurrence in the URL. After any of the four forms (behind a beginning such as
  \<open>https://\<close> or \<open>https://www.\<close>, which has no letter \<open>y\<close> or \<open>v\<close> for a pattern to
  start at) a segment of identifier characters that ends the URL is recognized exactly
  when it has at least 11 characters, and the id is its first 11: a shorter segment is
  not recognized, a longer one is cut.
  \<open>https://youtu.be/dQw4w9WgXcQ\<close> yields the YouTube id \<open>dQw4w9WgXcQ\<close>.
\<close>

theorem getVideoId_youtube:
  "((\<exists>i. getVideoId url = Some \<lparr>info_type = ''youtube'', info_id = i\<rparr>) \<longleftrightarrow>
      (\<exists>i. contains_youtube_form url i)) \<and>
   (getVideoId url = Some \<lparr>info_type = ''youtube'', info_id = i\<rparr> \<longrightarrow>
      contains_youtube_form url i) \<and>
   (p \<in> set youtube_prefixes \<and> list_all is_word_or_dash seg \<and>
    CHR ''y'' \<notin> set pre \<and> CHR ''v'' \<notin> set pre \<longrightarrow>
      getVideoId (pre @ p @ seg) =
        (if 11 \<le> length seg
         then Some \<lparr>info_type = ''youtube'', info_id = take 11 seg\<rparr> else None)) \<and>
   getVideoId ''https://youtu.be/dQw4w9WgXcQ'' =
     Some \<lparr>info_type = ''youtube'', info_id = ''dQw4w9WgXcQ''\<rparr>"
proof (intro conjI impI)
  show "(\<exists>i. getVideoId url = Some \<lparr>info_type = ''youtube'', info_id = i\<rparr>) \<longleftrightarrow>
      (\<exists>i. contains_youtube_form url i)"
    unfolding youtube_result_iff
    using youtubeMatch_sound youtubeMatch_complete by blast
next
  assume "getVideoId url = Some \<lparr>info_type = ''youtube'', info_id = i\<rparr>"
  then show "contains_youtube_form url i"
    by (simp only: youtube_result_iff youtubeMatch_sound)
next
  assume "p \<in> set youtube_prefixes \<and> list_all is_word_or_dash seg \<and>
    CHR ''y'' \<notin> set pre \<and> CHR ''v'' \<notin> set pre"
  then show "getVideoId (pre @ p @ seg) =
        (if 11 \<le> length seg
         then Some \<lparr>info_type = ''youtube'', info_id = take 11 seg\<rparr> else None)"
    by (simp add: youtube_form_segment)
next
  show "getVideoId ''https://youtu.be/dQw4w9WgXcQ'' =
     Some \<lparr>info_type = ''youtube'', info_id = ''dQw4w9WgXcQ''\<rparr>"
    by (simp add: resolver_eval)
qed

text \<open>
  A watch URL with a query after the id, and a watch URL whose segment has ten
  characters.
\<close>

theorem getVideoId_youtube_witness:
  "getVideoId ''https://www.youtube.com/watch?v=dQw4w9WgXcQ&t=42'' =
     Some \<lparr>info_type = ''youtube'', info_id = ''dQw4w9WgXcQ''\<rparr> \<and>
   contains_youtube_form ''https://www.youtube.com/watch?v=dQw4w9WgXcQ&t=42'' ''dQw4w9WgXcQ'' \<and>
   ''youtube.com/watch?v='' \<in> set youtube_prefixes \<and>
   list_all is_word_or_dash ''dQw4w9WgXc'' \<and>
   CHR ''y'' \<notin> set ''https://www.'' \<and> CHR ''v'' \<notin> set ''https://www.'' \<and>
   getVideoId (''https://www.'' @ ''youtube.com/watch?v='' @ ''dQw4w9WgXc'') = None"
proof -
  have g: "getVideoId ''https://www.youtube.com/watch?v=dQw4w9WgXcQ&t=42'' =
     Some \<lparr>info_type = ''youtube'', info_id = ''dQw4w9WgXcQ''\<rparr>"
    by (simp add: resolver_eval)
  have s: "list_all is_word_or_dash ''dQw4w9WgXc''" by (simp add: is_word_or_dash_def)
  have p: "''youtube.com/watch?v='' \<in> set youtube_prefixes" by (simp add: youtube_prefixes_def)
  show ?thesis
    using g s p
      getVideoId_youtube [where url = "''https://www.youtube.com/watch?v=dQw4w9WgXcQ&t=42''"
            and i = "''dQw4w9WgXcQ''" and seg = "''dQw4w9WgXc''"
            and p = "''youtube.com/watch?v=''" and pre = "''https://www.''"]
    by simp
qed

text \<open>
  Claim C6. The YouTube pattern is tried first: a URL that contains a YouTube form and
  a Vimeo form resolves as YouTube, with an id of a YouTube form it contains, never as
  Vimeo.
\<close>

theorem getVideoId_youtube_precedence:
  "(\<exists>i. contains_youtube_form url i) \<Longrightarrow> contains_vimeo_form url \<Longrightarrow>
     \<exists>i. getVideoId url = Some \<lparr>info_type = ''youtube'', info_id = i\<rparr> \<and>
         contains_youtube_form url i"
proof -
  assume "\<exists>i. contains_youtube_form url i"
  then obtain j where "youtubeMatch url = Some j" using youtubeMatch_complete by blast
  then have "getVideoId url = Some \<lparr>info_type = ''youtube'', info_id = j\<rparr> \<and>
         contains_youtube_form url j"
    by (simp add: youtube_result_iff youtubeMatch_sound)
  then show ?thesis by blast
qed

text \<open>
  A Vimeo URL whose query mentions a YouTube link matches both patterns; the Vimeo
  pattern alone would give \<open>76979871\<close>.
\<close>

theorem getVideoId_youtube_precedence_witness:
  "contains_youtube_form ''https://vimeo.com/76979871?ref=youtu.be/dQw4w9WgXcQ'' ''dQw4w9WgXcQ'' \<and>
   contains_vimeo_form ''https://vimeo.com/76979871?ref=youtu.be/dQw4w9WgXcQ'' \<and>
   vimeoMatch ''https://vimeo.com/76979871?ref=youtu.be/dQw4w9WgXcQ'' = Some ''76979871'' \<and>
   getVideoId ''https://vimeo.com/76979871?ref=youtu.be/dQw4w9WgXcQ'' =
     Some \<lparr>info_type = ''youtube'', info_id = ''dQw4w9WgXcQ''\<rparr>"
proof -
  let ?u = "''https://vimeo.com/76979871?ref=youtu.be/dQw4w9WgXcQ''"
  have y: "youtubeMatch ?u = Some ''dQw4w9WgXcQ''" by (simp add: resolver_eval)
  have v: "vimeoMatch ?u = Some ''76979871''" by (simp add: resolver_eval)
  have cy: "contains_youtube_form ?u ''dQw4w9WgXcQ''" using y by (rule youtubeMatch_sound)
  have cv: "contains_vimeo_form ?u" using v by (rule vimeoMatch_sound)
  from cy have "\<exists>i. contains_youtube_form ?u i" by blast
  from getVideoId_youtube_precedence [OF this cv]
  show ?thesis using y v cy cv by (simp add: youtube_result_iff)
qed

text \<open>
  Claim C7. A URL that contains neither a YouTube form nor \<open>vimeo.com/\<close> followed by a
  digit resolves to \<open>None\<close>, the source's \<open>null\<close>: a value the page renders as
  "Unsupported video URL format", not an exception. \<open>https://example.com/video.mp4\<close>
  is such a URL.
\<close>

theorem getVideoId_unsupported:
  "((\<forall>i. \<not> contains_youtube_form url i) \<and> \<not> contains_vimeo_form url \<longrightarrow>
      getVideoId url = None) \<and>
   getVideoId ''https://example.com/video.mp4'' = None"
proof (intro conjI impI)
  assume a: "(\<forall>i. \<not> contains_youtube_form url i) \<and> \<not> contains_vimeo_form url"
  have "youtubeMatch url = None"
  proof (cases "youtubeMatch url")
    case (Some i)
    then show ?thesis using a youtubeMatch_sound by blast
  qed simp
  moreover have "vimeoMatch url = None"
  proof (cases "vimeoMatch url")
    case (Some d)
    then show ?thesis using a vimeoMatch_sound by blast
  qed simp
  ultimately show "getVideoId url = None" by (simp add: null_result_iff)
next
  show "getVideoId ''https://example.com/video.mp4'' = None" by (simp add: resolver_eval)
qed

text \<open>
  A URL with a YouTube prefix but only five characters after it contains neither form.
\<close>

theorem getVideoId_unsupported_witness:
  "(\<forall>i. \<not> contains_youtube_form ''https://cdn.example.org/youtu.be/short'' i) \<and>
   \<not> contains_vimeo_form ''https://cdn.example.org/youtu.be/short'' \<and>
   getVideoId ''https://cdn.example.org/youtu.be/short'' = None"
proof -
  let ?u = "''https://cdn.example.org/youtu.be/short''"
  have y: "youtubeMatch ?u = None" by (simp add: resolver_eval)
  have v: "vimeoMatch ?u = None" by (simp add: resolver_eval)
  have ny: "\<forall>i. \<not> contains_youtube_form ?u i"
    using y youtubeMatch_complete by (metis option.distinct(1))
  have nv: "\<not> contains_vimeo_form ?u"
    using v vimeoMatch_complete by (metis option.distinct(1))
  show ?thesis using ny nv getVideoId_unsupported [where url = ?u] by blast
qed

section \<open>The store: one record per pair\<close>

lemma find_Some_mem: "find P xs = Some x \<Longrightarrow> x \<in> set xs \<and> P x"
  by (induction xs) (auto split: if_splits)

lemma find_None_all: "find P xs = None \<longleftrightarrow> (\<forall>x\<in>set xs. \<not> P x)"
  by (induction xs) auto

lemma distinct_map_eq:
  "distinct (map f xs) \<Longrightarrow> x \<in> set xs \<Longrightarrow> y \<in> set xs \<Longrightarrow> f x = f y \<Longrightarrow> x = y"
  by (meson distinct_map inj_onD)

lemma find_by_key:
  "distinct (map f xs) \<Longrightarrow> x \<in> set xs \<Longrightarrow> find (\<lambda>q. f q = f x) xs = Some x"
  by (induction xs) (auto simp: image_iff)

lemma setCompletion_existing:
  assumes pk: "primary_key_ok db" and uq: "unique_userId_videoId db"
    and f: "findUnique db u v = Some p"
  shows "setCompletion now cuid u v c db =
           (Inr (p\<lparr>completed := c, updatedAt := now\<rparr>),
            db\<lparr>db_progress := touch now u v c (db_progress db)\<rparr>)"
proof -
  from f have p: "p \<in> set (db_progress db)" "userId p = u" "videoId p = v"
    unfolding findUnique_def by (auto dest: find_Some_mem)
  have fp: "find (\<lambda>q. row_id q = row_id p) (db_progress db) = Some p"
    using pk p(1) unfolding primary_key_ok_def by (rule find_by_key)
  have "(row_id q = row_id p) = (userId q = u \<and> videoId q = v)" if "q \<in> set (db_progress db)" for q
  proof
    assume "row_id q = row_id p"
    then have "q = p" using pk that p(1) unfolding primary_key_ok_def by (rule_tac distinct_map_eq)
    then show "userId q = u \<and> videoId q = v" using p by simp
  next
    assume "userId q = u \<and> videoId q = v"
    then have "(userId q, videoId q) = (userId p, videoId p)" using p by simp
    then have "q = p" using uq that p(1) unfolding unique_userId_videoId_def
      by (rule_tac distinct_map_eq [where f = "\<lambda>p. (userId p, videoId p)"])
    then show "row_id q = row_id p" by simp
  qed
  then have "map (\<lambda>q. if row_id q = row_id p then q\<lparr>completed := c, updatedAt := now\<rparr> else q)
               (db_progress db) = touch now u v c (db_progress db)"
    unfolding touch_def by (intro map_cong) auto
  then show ?thesis using f fp by (simp add: setCompletion_def update_def)
qed

lemma setCompletion_absent:
  assumes "findUnique db u v = None" "cuid \<notin> row_id ` set (db_progress db)"
    "u \<in> db_users db" "v \<in> db_videos db"
  shows "setCompletion now cuid u v c db =
           (Inr \<lparr>row_id = cuid, userId = u, videoId = v, completed = c, updatedAt = now\<rparr>,
            db\<lparr>db_progress := db_progress db @
               [\<lparr>row_id = cuid, userId = u, videoId = v, completed = c, updatedAt = now\<rparr>]\<rparr>)"
proof -
  have "\<not> list_ex (\<lambda>p. userId p = u \<and> videoId p = v) (db_progress db)"
    using assms(1) by (simp add: findUnique_def find_None_all list_ex_iff)
  then show ?thesis using assms by (simp add: setCompletion_def create_def Let_def)
qed

lemma filter_by_key:
  "distinct (map f xs) \<Longrightarrow> x \<in> set xs \<Longrightarrow> filter (\<lambda>q. f q = f x) xs = [x]"
proof (induction xs)
  case Nil
  then show ?case by simp
next
  case (Cons a xs)
  show ?case
  proof (cases "a = x")
    case True
    then have "\<forall>q\<in>set xs. f q \<noteq> f x" using Cons.prems(1) by (force simp: image_iff)
    then have "filter (\<lambda>q. f q = f x) xs = []" by (simp add: filter_empty_conv)
    then show ?thesis using True by simp
  next
    case False
    then have "x \<in> set xs" using Cons.prems by simp
    moreover then have "f a \<noteq> f x" using Cons.prems(1) by (force simp: image_iff)
    ultimately show ?thesis using Cons by simp
  qed
qed

lemma records_for_existing:
  assumes uq: "unique_userId_videoId db" and f: "findUnique db u v = Some p"
  shows "records_for db u v = [p]"
proof -
  from f have p: "p \<in> set (db_progress db)" "userId p = u" "videoId p = v"
    unfolding findUnique_def by (auto dest: find_Some_mem)
  have "filter (\<lambda>q. (userId q, videoId q) = (userId p, videoId p)) (db_progress db) = [p]"
    using uq p(1) unfolding unique_userId_videoId_def by (rule filter_by_key)
  then show ?thesis using p by (simp add: records_for_def)
qed

lemma records_for_absent: "findUnique db u v = None \<Longrightarrow> records_for db u v = []"
  by (simp add: findUnique_def records_for_def find_None_all filter_empty_conv)

lemma touch_filter:
  "filter (\<lambda>q. userId q = u \<and> videoId q = v) (touch now u v c rows) =
     map (\<lambda>q. q\<lparr>completed := c, updatedAt := now\<rparr>) (filter (\<lambda>q. userId q = u \<and> videoId q = v) rows)"
  by (induction rows) (auto simp: touch_def)

lemma touch_keys:
  "map row_id (touch now u v c rows) = map row_id rows"
  "map (\<lambda>p. (userId p, videoId p)) (touch now u v c rows) = map (\<lambda>p. (userId p, videoId p)) rows"
  by (induction rows) (auto simp: touch_def)

lemma touch_touch: "touch t2 u v c (touch t1 u v c rows) = touch t2 u v c rows"
  by (induction rows) (auto simp: touch_def)

lemma touch_find:
  "find (\<lambda>q. userId q = u \<and> videoId q = v) rows = Some p \<Longrightarrow>
     find (\<lambda>q. userId q = u \<and> videoId q = v) (touch now u v c rows) =
       Some (p\<lparr>completed := c, updatedAt := now\<rparr>)"
  by (induction rows) (auto simp: touch_def split: if_splits)

lemma calls_Cons:
  "setCompletion_calls ((now, cuid) # es) u v c db =
     (fst (setCompletion now cuid u v c db) #
        fst (setCompletion_calls es u v c (snd (setCompletion now cuid u v c db))),
      snd (setCompletion_calls es u v c (snd (setCompletion now cuid u v c db))))"
  by (simp split: prod.splits)

lemma find_snoc: "\<forall>q\<in>set xs. \<not> P q \<Longrightarrow> P x \<Longrightarrow> find P (xs @ [x]) = Some x"
  by (induction xs) auto

lemma calls_existing:
  assumes "primary_key_ok db" "unique_userId_videoId db" "findUnique db u v = Some p" "es \<noteq> []"
  shows "list_all (\<lambda>r. \<not> isl r) (fst (setCompletion_calls es u v c db)) \<and>
         snd (setCompletion_calls es u v c db) =
           db\<lparr>db_progress := touch (fst (last es)) u v c (db_progress db)\<rparr>"
  using assms
proof (induction es arbitrary: db p)
  case Nil
  then show ?case by simp
next
  case (Cons e es)
  obtain now cuid where e: "e = (now, cuid)" by (cases e)
  let ?db1 = "db\<lparr>db_progress := touch now u v c (db_progress db)\<rparr>"
  have step: "setCompletion now cuid u v c db = (Inr (p\<lparr>completed := c, updatedAt := now\<rparr>), ?db1)"
    using Cons.prems(1-3) by (rule setCompletion_existing)
  show ?case
  proof (cases "es = []")
    case True
    then show ?thesis using step e by (simp add: touch_def)
  next
    case False
    have pk1: "primary_key_ok ?db1" using Cons.prems(1) by (simp add: primary_key_ok_def touch_keys)
    have uq1: "unique_userId_videoId ?db1"
      using Cons.prems(2) by (simp add: unique_userId_videoId_def touch_keys)
    have f1: "findUnique ?db1 u v = Some (p\<lparr>completed := c, updatedAt := now\<rparr>)"
      using Cons.prems(3) by (simp add: findUnique_def touch_find)
    from Cons.IH [OF pk1 uq1 f1 False]
    show ?thesis using step e False
      by (simp add: calls_Cons touch_touch del: setCompletion_calls.simps)
  qed
qed

lemma setCompletion_ok:
  assumes pk: "primary_key_ok db" and uq: "unique_userId_videoId db"
    and u: "u \<in> db_users db" and v: "v \<in> db_videos db"
    and fresh: "cuid \<notin> row_id ` set (db_progress db)"
  shows "\<exists>p db'. setCompletion now cuid u v c db = (Inr p, db') \<and>
           primary_key_ok db' \<and> unique_userId_videoId db' \<and>
           db_users db' = db_users db \<and> db_videos db' = db_videos db \<and>
           findUnique db' u v = Some p \<and> records_for db' u v = [p] \<and>
           completed p = c \<and> updatedAt p = now \<and>
           (findUnique db u v \<noteq> None \<longrightarrow>
              db_progress db' = touch now u v c (db_progress db))"
proof (cases "findUnique db u v")
  case None
  let ?p = "\<lparr>row_id = cuid, userId = u, videoId = v, completed = c, updatedAt = now\<rparr>"
  let ?db' = "db\<lparr>db_progress := db_progress db @ [?p]\<rparr>"
  have s: "setCompletion now cuid u v c db = (Inr ?p, ?db')"
    using None fresh u v by (rule setCompletion_absent)
  have no: "\<forall>q\<in>set (db_progress db). \<not> (userId q = u \<and> videoId q = v)"
    using None by (simp add: findUnique_def find_None_all)
  have pk': "primary_key_ok ?db'" using pk fresh by (simp add: primary_key_ok_def)
  have uq': "unique_userId_videoId ?db'"
    using uq no by (auto simp: unique_userId_videoId_def)
  have f': "findUnique ?db' u v = Some ?p"
    using no by (simp add: findUnique_def find_snoc)
  have "records_for ?db' u v = [?p]" using uq' f' by (rule records_for_existing)
  then show ?thesis using s pk' uq' f' None by simp
next
  case (Some p)
  let ?p = "p\<lparr>completed := c, updatedAt := now\<rparr>"
  let ?db' = "db\<lparr>db_progress := touch now u v c (db_progress db)\<rparr>"
  have s: "setCompletion now cuid u v c db = (Inr ?p, ?db')"
    using pk uq Some by (rule setCompletion_existing)
  have pk': "primary_key_ok ?db'" using pk by (simp add: primary_key_ok_def touch_keys)
  have uq': "unique_userId_videoId ?db'" using uq by (simp add: unique_userId_videoId_def touch_keys)
  have f': "findUnique ?db' u v = Some ?p" using Some by (simp add: findUnique_def touch_find)
  have "records_for ?db' u v = [?p]" using uq' f' by (rule records_for_existing)
  then show ?thesis using s pk' uq' f' by simp
qed

lemma touch_others:
  "filter (\<lambda>p. userId p = u \<longrightarrow> videoId p \<noteq> v) (touch now u v c rows) =
     filter (\<lambda>p. userId p = u \<longrightarrow> videoId p \<noteq> v) rows"
  by (induction rows) (auto simp: touch_def)

lemma touch_same_flag:
  assumes "\<forall>q\<in>set rows. userId q = u \<and> videoId q = v \<longrightarrow> completed q = c"
  shows "touch now u v c rows =
           map (\<lambda>q. if userId q = u \<and> videoId q = v then q\<lparr>updatedAt := now\<rparr> else q) rows"
  using assms by (induction rows) (auto simp: touch_def)

lemma same_updatedAt:
  assumes "\<forall>q\<in>set rows. userId q = u \<and> videoId q = v \<longrightarrow> updatedAt q = now"
  shows "map (\<lambda>q. if userId q = u \<and> videoId q = v then q\<lparr>updatedAt := now\<rparr> else q) rows = rows"
  using assms by (induction rows) auto

lemma setCompletion_others:
  assumes pk: "primary_key_ok db" and uq: "unique_userId_videoId db"
    and u: "u \<in> db_users db" and v: "v \<in> db_videos db"
    and fresh: "cuid \<notin> row_id ` set (db_progress db)"
  shows "other_records (snd (setCompletion now cuid u v c db)) u v = other_records db u v"
proof (cases "findUnique db u v")
  case None
  then show ?thesis
    using setCompletion_absent [OF None fresh u v, of now c] by (simp add: other_records_def)
next
  case (Some p)
  then show ?thesis
    using setCompletion_existing [OF pk uq Some, of now cuid c]
    by (simp add: other_records_def touch_others)
qed

lemmas store_eval = setCompletion_def findUnique_def create_def update_def Let_def
  records_for_def other_records_def with_updatedAt_def primary_key_ok_def
  unique_userId_videoId_def
  foreign_keys_ok_def example_db_def

text \<open>
  Claim C3 as stated says that the final state is identical regardless of the call
  count. \<open>updatedAt\<close> is part of the record and every update sets it: two calls at the
  times 10 and 20 leave \<open>updatedAt = 20\<close>, the first call alone leaves 10.
\<close>

theorem setCompletion_repeated_updatedAt_counterexample:
  "snd (setCompletion_calls [(10, ''c1''), (20, ''c2'')] ''u1'' ''v1'' True example_db) =
     example_db\<lparr>db_progress := db_progress example_db @
       [\<lparr>row_id = ''c1'', userId = ''u1'', videoId = ''v1'', completed = True, updatedAt = 20\<rparr>]\<rparr> \<and>
   snd (setCompletion_calls [(10, ''c1'')] ''u1'' ''v1'' True example_db) =
     example_db\<lparr>db_progress := db_progress example_db @
       [\<lparr>row_id = ''c1'', userId = ''u1'', videoId = ''v1'', completed = True, updatedAt = 10\<rparr>]\<rparr> \<and>
   snd (setCompletion_calls [(10, ''c1''), (20, ''c2'')] ''u1'' ''v1'' True example_db) \<noteq>
     snd (setCompletion_calls [(10, ''c1'')] ''u1'' ''v1'' True example_db)"
  by (simp add: store_eval)

text \<open>
  Claim C3, as amended. For a user and a video that exist and a store that satisfies
  its key constraints, any number of calls \<open>setCompletion(u, v, b)\<close> (here one call
  followed by the calls \<open>es\<close>) all succeed and leave exactly one record for the pair
  \<open>(u, v)\<close>, with \<open>completed = b\<close> and \<open>updatedAt\<close> the time of the last call. The
  final store is the store after the first call alone with \<open>updatedAt\<close> of that one
  record set to the time of the last call, and nothing else changed, whatever the
  number of calls; the records of all other pairs are those the calls started from.
\<close>

theorem setCompletion_repeated:
  assumes "primary_key_ok db" and "unique_userId_videoId db"
    and "u \<in> db_users db" and "v \<in> db_videos db"
    and "cuid \<notin> row_id ` set (db_progress db)"
  shows "list_all (\<lambda>r. \<not> isl r) (fst (setCompletion_calls ((now, cuid) # es) u v b db)) \<and>
         (\<exists>p. records_for (snd (setCompletion_calls ((now, cuid) # es) u v b db)) u v = [p] \<and>
              completed p = b \<and> updatedAt p = fst (last ((now, cuid) # es))) \<and>
         snd (setCompletion_calls ((now, cuid) # es) u v b db) =
           with_updatedAt u v (fst (last ((now, cuid) # es)))
             (snd (setCompletion now cuid u v b db)) \<and>
         other_records (snd (setCompletion_calls ((now, cuid) # es) u v b db)) u v =
           other_records db u v"
proof -
  obtain p db1 where s: "setCompletion now cuid u v b db = (Inr p, db1)"
    and inv: "primary_key_ok db1" "unique_userId_videoId db1" "findUnique db1 u v = Some p"
    and r: "records_for db1 u v = [p]" "completed p = b" "updatedAt p = now"
    using setCompletion_ok [OF assms, of now b] by blast
  have o1: "other_records db1 u v = other_records db u v"
    using setCompletion_others [OF assms, of now b] s by simp
  have rows: "completed q = b \<and> updatedAt q = now"
    if "q \<in> set (db_progress db1)" "userId q = u \<and> videoId q = v" for q
  proof -
    have "q \<in> set (records_for db1 u v)" using that by (simp add: records_for_def)
    then show ?thesis using r by simp
  qed
  show ?thesis
  proof (cases "es = []")
    case True
    have "with_updatedAt u v now db1 = db1"
      using rows by (simp add: with_updatedAt_def same_updatedAt)
    then show ?thesis using True s r o1 by simp
  next
    case False
    let ?t = "fst (last es)"
    let ?db' = "db1\<lparr>db_progress := touch ?t u v b (db_progress db1)\<rparr>"
    from calls_existing [OF inv False, of b]
    have ok: "list_all (\<lambda>r. \<not> isl r) (fst (setCompletion_calls es u v b db1))"
      and fin: "snd (setCompletion_calls es u v b db1) = ?db'" by simp_all
    have rec: "records_for ?db' u v = [p\<lparr>completed := b, updatedAt := ?t\<rparr>]"
      using r(1) by (simp add: records_for_def touch_filter)
    have eq: "?db' = with_updatedAt u v ?t db1"
      using rows by (simp add: with_updatedAt_def touch_same_flag)
    have o2: "other_records ?db' u v = other_records db u v"
      using o1 by (simp add: other_records_def touch_others)
    show ?thesis using s ok fin rec eq o2 False
      by (simp add: calls_Cons del: setCompletion_calls.simps)
  qed
qed

text \<open>
  Three calls on the example store, at the times 10, 20 and 30: the record of the other
  video keeps its \<open>updatedAt = 5\<close>.
\<close>

theorem setCompletion_repeated_witness:
  "primary_key_ok example_db \<and> unique_userId_videoId example_db \<and>
   ''u1'' \<in> db_users example_db \<and> ''v1'' \<in> db_videos example_db \<and>
   ''c1'' \<notin> row_id ` set (db_progress example_db) \<and>
   list_all (\<lambda>r. \<not> isl r)
     (fst (setCompletion_calls [(10, ''c1''), (20, ''c2''), (30, ''c3'')] ''u1'' ''v1'' True example_db)) \<and>
   snd (setCompletion_calls [(10, ''c1''), (20, ''c2''), (30, ''c3'')] ''u1'' ''v1'' True example_db) =
     example_db\<lparr>db_progress :=
       [\<lparr>row_id = ''c0'', userId = ''u1'', videoId = ''v2'', completed = False, updatedAt = 5\<rparr>,
        \<lparr>row_id = ''c1'', userId = ''u1'', videoId = ''v1'', completed = True, updatedAt = 30\<rparr>]\<rparr> \<and>
   other_records
     (snd (setCompletion_calls [(10, ''c1''), (20, ''c2''), (30, ''c3'')] ''u1'' ''v1'' True example_db))
     ''u1'' ''v1'' =
     [\<lparr>row_id = ''c0'', userId = ''u1'', videoId = ''v2'', completed = False, updatedAt = 5\<rparr>]"
proof -
  have h: "primary_key_ok example_db" "unique_userId_videoId example_db"
    "''u1'' \<in> db_users example_db" "''v1'' \<in> db_videos example_db"
    "''c1'' \<notin> row_id ` set (db_progress example_db)"
    by (simp_all add: store_eval)
  have f: "snd (setCompletion 10 ''c1'' ''u1'' ''v1'' True example_db) =
     example_db\<lparr>db_progress :=
       [\<lparr>row_id = ''c0'', userId = ''u1'', videoId = ''v2'', completed = False, updatedAt = 5\<rparr>,
        \<lparr>row_id = ''c1'', userId = ''u1'', videoId = ''v1'', completed = True, updatedAt = 10\<rparr>]\<rparr>"
    by (simp add: store_eval)
  have o: "other_records example_db ''u1'' ''v1'' =
     [\<lparr>row_id = ''c0'', userId = ''u1'', videoId = ''v2'', completed = False, updatedAt = 5\<rparr>]"
    by (simp add: other_records_def example_db_def)
  from setCompletion_repeated [OF h, where now = 10 and es = "[(20, ''c2''), (30, ''c3'')]" and b = True]
  show ?thesis using h by (simp add: f o with_updatedAt_def other_records_def del: setCompletion_calls.simps)
qed

text \<open>
  Claim C4. \<open>setCompletion(u, v, true)\<close> followed by \<open>setCompletion(u, v, false)\<close> leaves
  exactly one record for \<open>(u, v)\<close>, with \<open>completed = false\<close>. The second call
  inserts nothing: the table keeps its length, the record keeps its id, and the rows
  are those after the first call with the flag and the time of the pair's row
  overwritten.
\<close>

theorem setCompletion_toggle:
  assumes "primary_key_ok db" and "unique_userId_videoId db"
    and "u \<in> db_users db" and "v \<in> db_videos db"
    and "cuid1 \<notin> row_id ` set (db_progress db)"
  shows "\<exists>p1 db1 p2 db2.
           setCompletion t1 cuid1 u v True db = (Inr p1, db1) \<and>
           setCompletion t2 cuid2 u v False db1 = (Inr p2, db2) \<and>
           records_for db2 u v = [p2] \<and> \<not> completed p2 \<and>
           row_id p2 = row_id p1 \<and>
           length (db_progress db2) = length (db_progress db1) \<and>
           db_progress db2 =
             map (\<lambda>q. if userId q = u \<and> videoId q = v
                       then q\<lparr>completed := False, updatedAt := t2\<rparr> else q) (db_progress db1)"
proof -
  obtain p1 db1 where s1: "setCompletion t1 cuid1 u v True db = (Inr p1, db1)"
    and inv: "primary_key_ok db1" "unique_userId_videoId db1" "findUnique db1 u v = Some p1"
    using setCompletion_ok [OF assms, of t1 True] by blast
  have s2: "setCompletion t2 cuid2 u v False db1 =
              (Inr (p1\<lparr>completed := False, updatedAt := t2\<rparr>),
               db1\<lparr>db_progress := touch t2 u v False (db_progress db1)\<rparr>)"
    using inv by (rule setCompletion_existing)
  have "records_for db1 u v = [p1]" using inv(2,3) by (rule records_for_existing)
  then have "records_for (db1\<lparr>db_progress := touch t2 u v False (db_progress db1)\<rparr>) u v =
          [p1\<lparr>completed := False, updatedAt := t2\<rparr>]"
    by (simp add: records_for_def touch_filter)
  then show ?thesis using s1 s2 by (simp add: touch_def)
qed

text \<open>The toggle on the example store.\<close>

theorem setCompletion_toggle_witness:
  "primary_key_ok example_db \<and> unique_userId_videoId example_db \<and>
   ''u1'' \<in> db_users example_db \<and> ''v1'' \<in> db_videos example_db \<and>
   ''c1'' \<notin> row_id ` set (db_progress example_db) \<and>
   (\<exists>p1 db1 p2 db2.
      setCompletion 10 ''c1'' ''u1'' ''v1'' True example_db = (Inr p1, db1) \<and>
      setCompletion 20 ''c2'' ''u1'' ''v1'' False db1 = (Inr p2, db2) \<and>
      records_for db2 ''u1'' ''v1'' = [p2] \<and> \<not> completed p2 \<and> row_id p2 = row_id p1 \<and>
      length (db_progress db2) = length (db_progress db1))"
proof -
  have h: "primary_key_ok example_db" "unique_userId_videoId example_db"
    "''u1'' \<in> db_users example_db" "''v1'' \<in> db_videos example_db"
    "''c1'' \<notin> row_id ` set (db_progress example_db)"
    by (simp_all add: store_eval)
  from setCompletion_toggle [OF h, where ?t1.0 = 10 and ?t2.0 = 20 and ?cuid2.0 = "''c2''"]
  show ?thesis using h by blast
qed

text \<open>
  Claim C8. When the user or the video does not exist, \<open>setCompletion\<close> fails: the
  action makes no check of its own, the insert is rejected by the foreign keys of the
  table (the failure the specification names \<open>NotFound\<close>), no record for the pair
  exists and the store is left as it was. The action passes the failure on uncaught.
\<close>

theorem setCompletion_missing_reference:
  assumes "foreign_keys_ok db" and "u \<notin> db_users db \<or> v \<notin> db_videos db"
    and "cuid \<notin> row_id ` set (db_progress db)"
  shows "setCompletion now cuid u v b db = (Inl ForeignKeyConstraintFailed, db) \<and>
         records_for db u v = [] \<and>
         (session_user req = Some u \<and> params_videoId req = Some v \<and> v \<noteq> [] \<longrightarrow>
            action now cuid req db = (Uncaught ForeignKeyConstraintFailed, db))"
proof -
  have no: "\<forall>q\<in>set (db_progress db). \<not> (userId q = u \<and> videoId q = v)"
    using assms(1,2) by (auto simp: foreign_keys_ok_def list_all_iff)
  then have f: "findUnique db u v = None" by (simp add: findUnique_def find_None_all)
  have "\<not> list_ex (\<lambda>p. userId p = u \<and> videoId p = v) (db_progress db)"
    using no by (simp add: list_ex_iff)
  then have "setCompletion now cuid u v c db = (Inl ForeignKeyConstraintFailed, db)" for c
    using f assms(2,3) by (auto simp: setCompletion_def create_def)
  then show ?thesis using f by (simp add: records_for_absent action_def)
qed

text \<open>The video \<open>v9\<close> is not in the example store.\<close>

theorem setCompletion_missing_reference_witness:
  "foreign_keys_ok example_db \<and> ''v9'' \<notin> db_videos example_db \<and>
   ''c1'' \<notin> row_id ` set (db_progress example_db) \<and>
   setCompletion 10 ''c1'' ''u1'' ''v9'' True example_db =
     (Inl ForeignKeyConstraintFailed, example_db) \<and>
   action 10 ''c1''
     \<lparr>session_user = Some ''u1'', params_videoId = Some ''v9'',
        formData = [(''completed'', StringValue ''true'')]\<rparr> example_db =
     (Uncaught ForeignKeyConstraintFailed, example_db)"
proof -
  have h: "foreign_keys_ok example_db" "''u1'' \<notin> db_users example_db \<or> ''v9'' \<notin> db_videos example_db"
    "''c1'' \<notin> row_id ` set (db_progress example_db)"
    by (simp_all add: store_eval)
  from setCompletion_missing_reference [OF h, where now = 10 and b = True and req =
      "\<lparr>session_user = Some ''u1'', params_videoId = Some ''v9'',
         formData = [(''completed'', StringValue ''true'')]\<rparr>"]
  show ?thesis using h by (simp add: example_db_def)
qed



section \<open>Rounding: integer bounds and error\<close>

text \<open>\<open>floor_log2\<close> is the binary exponent of a positive rational.\<close>

lemma pow2_Suc: "pow2 (e + 1) = 2 * pow2 e"
proof -
  consider "0 \<le> e" | "e = - 1" | "e < - 1" by linarith
  then show ?thesis
  proof cases
    case 1
    then show ?thesis by (simp add: pow2_def nat_add_distrib)
  next
    case 2
    then show ?thesis by (simp add: pow2_def)
  next
    case 3
    then have "nat (- e) = Suc (nat (- e - 1))" by simp
    then show ?thesis using 3 by (simp add: pow2_def)
  qed
qed

lemma floor_log2_bounds:
  "0 < x \<Longrightarrow> pow2 (floor_log2 x) \<le> x \<and> x < pow2 (floor_log2 x + 1)"
proof (induction x rule: floor_log2.induct)
  case (1 x)
  consider "x < 1" | "2 \<le> x" | "1 \<le> x" "x < 2" by linarith
  then show ?case
  proof cases
    case 1
    then have e: "floor_log2 x = floor_log2 (2 * x) - 1"
      using "1.prems" by (subst floor_log2.simps) simp
    have "pow2 (floor_log2 (2 * x)) \<le> 2 * x \<and> 2 * x < pow2 (floor_log2 (2 * x) + 1)"
      using "1.IH"(1) "1.prems" 1 by simp
    moreover have "pow2 (floor_log2 (2 * x)) = 2 * pow2 (floor_log2 (2 * x) - 1)"
      using pow2_Suc [of "floor_log2 (2 * x) - 1"] by simp
    ultimately show ?thesis using e by (simp add: pow2_Suc)
  next
    case 2
    then have e: "floor_log2 x = floor_log2 (x / 2) + 1"
      using "1.prems" by (subst floor_log2.simps) simp
    have "pow2 (floor_log2 (x / 2)) \<le> x / 2 \<and> x / 2 < pow2 (floor_log2 (x / 2) + 1)"
      using "1.IH"(2) "1.prems" 2 by simp
    moreover have "pow2 (floor_log2 (x / 2) + 1 + 1) = 2 * pow2 (floor_log2 (x / 2) + 1)"
      by (rule pow2_Suc)
    moreover have "pow2 (floor_log2 (x / 2) + 1) = 2 * pow2 (floor_log2 (x / 2))"
      by (rule pow2_Suc)
    ultimately show ?thesis unfolding e by simp
  next
    case 3
    then have "floor_log2 x = 0" by (subst floor_log2.simps) simp
    then show ?thesis using 3 by (simp add: pow2_def)
  qed
qed

lemma floor_log2_neg: "0 < x \<Longrightarrow> x < 1 \<Longrightarrow> floor_log2 x < 0"
proof (induction x rule: floor_log2.induct)
  case (1 x)
  show ?case
  proof (cases "2 * x < 1")
    case True
    with 1 have "floor_log2 (2 * x) < 0" by simp
    then show ?thesis using 1(3,4) by (subst floor_log2.simps) simp
  next
    case False
    then have "floor_log2 (2 * x) = 0"
      using 1(3,4) by (subst floor_log2.simps) simp
    then show ?thesis using 1(3,4) by (subst floor_log2.simps) simp
  qed
qed

lemma floor_log2_less: "1 \<le> x \<Longrightarrow> x < 2 ^ n \<Longrightarrow> floor_log2 x < int n"
proof (induction n arbitrary: x)
  case 0
  then show ?case by simp
next
  case (Suc n)
  show ?case
  proof (cases "2 \<le> x")
    case True
    then have "1 \<le> x / 2" "x / 2 < 2 ^ n" using Suc.prems by simp_all
    then have "floor_log2 (x / 2) < int n" by (rule Suc.IH)
    then show ?thesis using True by (subst floor_log2.simps) simp
  next
    case False
    then show ?thesis using Suc.prems by (subst floor_log2.simps) simp
  qed
qed

lemma round_half_even_nonneg: "0 \<le> y \<Longrightarrow> 0 \<le> round_half_even y"
  by (simp add: round_half_even_def Let_def)

lemma round_half_even_le: "y \<le> of_int k \<Longrightarrow> round_half_even y \<le> k"
proof -
  assume a: "y \<le> of_int k"
  show ?thesis
  proof (cases "y = of_int k")
    case True
    then show ?thesis by (simp add: round_half_even_def)
  next
    case False
    with a have "y < of_int k" by simp
    then have "\<lfloor>y\<rfloor> < k" by (simp add: floor_less_iff)
    then show ?thesis by (simp add: round_half_even_def Let_def)
  qed
qed

lemma round64_bounded:
  assumes "x \<le> of_nat B" and "B < 2 ^ 53"
  shows "\<exists>r. round64 x = Num r \<and> 0 \<le> r \<and> r \<le> of_nat B"
proof (cases "x \<le> 0")
  case True
  then show ?thesis by (simp add: round64_def)
next
  case False
  then have pos: "0 < x" by simp
  define e where "e = max (floor_log2 x) (- 1022)"
  define m where "m = nat (52 - e)"
  define k where "k = round_half_even (x * 2 ^ m)"
  have "x < 2 ^ 53"
  proof -
    have "(of_nat B :: rat) < of_nat (2 ^ 53)" using assms(2) by (simp only: of_nat_less_iff)
    then show ?thesis using assms(1) by simp
  qed
  then have "floor_log2 x < 53"
    using floor_log2_neg [OF pos] floor_log2_less [of x 53] by (cases "x < 1") auto
  then have e: "e - 52 \<le> 0" by (simp add: e_def)
  then have q: "pow2 (e - 52) = 1 / 2 ^ m"
    by (cases "e = 52") (simp_all add: pow2_def m_def)
  have "x * 2 ^ m \<le> of_nat B * 2 ^ m" using assms(1) by simp
  also have "\<dots> = of_int (int (B * 2 ^ m))" by simp
  finally have "k \<le> int (B * 2 ^ m)" unfolding k_def by (rule round_half_even_le)
  then have "(of_int k :: rat) \<le> of_int (int (B * 2 ^ m))" by (simp only: of_int_le_iff)
  then have up: "of_int k / 2 ^ m \<le> (of_nat B :: rat)" by (simp add: field_simps)
  have "0 \<le> k" unfolding k_def using pos by (intro round_half_even_nonneg) simp
  then have lo: "0 \<le> (of_int k :: rat) / 2 ^ m" by simp
  have "(of_nat B :: rat) < of_nat (2 ^ 53)" using assms(2) by (simp only: of_nat_less_iff)
  also have "\<dots> \<le> 2 ^ 1024" by simp
  finally have "(of_int k :: rat) / 2 ^ m < 2 ^ 1024" using up by simp
  then have fin: "\<not> pow2 1024 \<le> of_int k / 2 ^ m" by (simp add: pow2_def)
  have "round64 x = Num (of_int k / 2 ^ m)"
    using False fin q unfolding round64_def Let_def e_def [symmetric] k_def
    by simp
  then show ?thesis using lo up by simp
qed

text \<open>Rounding moves a value by at most half a unit in the last place.\<close>

lemma round_half_even_error: "\<bar>of_int (round_half_even y) - y\<bar> \<le> 1 / 2"
proof -
  have "of_int \<lfloor>y\<rfloor> \<le> y" "y < of_int \<lfloor>y\<rfloor> + 1" by linarith+
  then show ?thesis by (auto simp: round_half_even_def Let_def)
qed

lemma round64_close:
  assumes "0 \<le> x" and "x < 2 ^ n" and "n \<le> 53"
  shows "\<exists>r. round64 x = Num r \<and> \<bar>r - x\<bar> \<le> 1 / 2 ^ (54 - n)"
proof (cases "x \<le> 0")
  case True
  then have "x = 0" using assms(1) by simp
  then show ?thesis by (simp add: round64_def)
next
  case False
  then have pos: "0 < x" by simp
  define e where "e = max (floor_log2 x) (- 1022)"
  define m where "m = nat (52 - e)"
  define k where "k = round_half_even (x * 2 ^ m)"
  have "floor_log2 x < int n"
    using floor_log2_neg [OF pos] floor_log2_less [of x n] assms(2) by (cases "x < 1") auto
  then have en: "e < int n" by (simp add: e_def)
  then have e: "e - 52 \<le> 0" using assms(3) by simp
  then have q: "pow2 (e - 52) = 1 / 2 ^ m"
    by (cases "e = 52") (simp_all add: pow2_def m_def)
  have mn: "54 - n \<le> Suc m" using en assms(3) by (simp add: m_def)
  have "\<bar>of_int k - x * 2 ^ m\<bar> \<le> 1 / 2" unfolding k_def by (rule round_half_even_error)
  then have "\<bar>of_int k - x * 2 ^ m\<bar> / 2 ^ m \<le> (1 / 2) / 2 ^ m"
    by (rule divide_right_mono) simp
  moreover have "\<bar>of_int k - x * 2 ^ m\<bar> / 2 ^ m = \<bar>of_int k / 2 ^ m - x\<bar>"
  proof -
    have "of_int k / 2 ^ m - x = (of_int k - x * 2 ^ m) / 2 ^ m"
      by (simp add: field_simps)
    then show ?thesis by (simp add: abs_divide)
  qed
  moreover have "(1 / 2) / 2 ^ m = (1 :: rat) / 2 ^ Suc m" by simp
  moreover have "(1 :: rat) / 2 ^ Suc m \<le> 1 / 2 ^ (54 - n)"
    using mn by (intro divide_left_mono power_increasing) simp_all
  ultimately have err: "\<bar>of_int k / 2 ^ m - x\<bar> \<le> 1 / 2 ^ (54 - n)" by simp
  have "(1 :: rat) / 2 ^ (54 - n) \<le> 1" by (simp add: divide_le_eq_1)
  then have "of_int k / 2 ^ m \<le> x + 1" using err by linarith
  also have "\<dots> < 2 ^ n + 1" using assms(2) by simp
  also have "\<dots> \<le> 2 ^ 53 + (1 :: rat)"
  proof -
    have "(2 :: rat) ^ n \<le> 2 ^ 53" using assms(3) by (intro power_increasing) simp_all
    then show ?thesis by (simp only: add_le_cancel_right)
  qed
  also have "\<dots> < 2 ^ 1024" by simp
  finally have fin: "\<not> pow2 1024 \<le> of_int k / 2 ^ m" by (simp add: pow2_def)
  have "round64 x = Num (of_int k / 2 ^ m)"
    using False fin q unfolding round64_def Let_def e_def [symmetric] k_def
    by simp
  then show ?thesis using err by simp
qed

section \<open>The loader: counts and percentages\<close>

lemma video_fold:
  "fold (\<lambda>video n. if video_completed ps video then n + 1 else n) vs n =
     n + length (filter (video_completed ps) vs)"
  by (induction vs arbitrary: n) auto

lemma chapter_fold:
  "fold (chapter_step ps) chs (t, c) =
     (t + length (concat (map videos chs)),
      c + length (filter (video_completed ps) (concat (map videos chs))))"
  by (induction chs arbitrary: t c) (auto simp: chapter_step_def video_fold)

lemma course_counts_eq:
  "course_counts ps c = (course_total c, counted_completed ps c)"
  by (simp add: course_counts_def chapter_fold course_total_def counted_completed_def
      course_videos_def)

lemma find_unique_row:
  "distinct (map videoId ps) \<Longrightarrow>
     (case find (\<lambda>p. videoId p = i) ps of None \<Rightarrow> False | Some p \<Rightarrow> completed p) =
       list_ex (\<lambda>p. videoId p = i \<and> completed p) ps"
proof (induction ps)
  case Nil
  then show ?case by simp
next
  case (Cons a ps)
  show ?case
  proof (cases "videoId a = i")
    case True
    then have "\<forall>p\<in>set ps. videoId p \<noteq> i" using Cons.prems by (force simp: image_iff)
    then show ?thesis using True by (auto simp: list_ex_iff)
  next
    case False
    then show ?thesis using Cons by simp
  qed
qed

lemma video_completed_unique:
  "one_record_per_video ps \<Longrightarrow>
     video_completed ps v = list_ex (\<lambda>p. videoId p = video_id v \<and> completed p) ps"
  unfolding one_record_per_video_def video_completed_def by (rule find_unique_row)

lemma counted_completed_unique:
  "one_record_per_video ps \<Longrightarrow> counted_completed ps c = course_completed ps c"
  by (simp add: counted_completed_def course_completed_def video_completed_unique cong: filter_cong)

lemma counted_le_total: "counted_completed ps c \<le> course_total c"
  by (simp add: counted_completed_def course_total_def)

lemma courses_map_eq:
  "courses_map ps ucs (t, c) =
     (map (\<lambda>uc. Course.extend (course uc)
             (CourseWithProgress.fields
                (percentage (counted_completed ps (course uc)) (course_total (course uc))))) ucs,
      (t + sum_list (map (\<lambda>uc. course_total (course uc)) ucs),
       c + sum_list (map (\<lambda>uc. counted_completed ps (course uc)) ucs)))"
  by (induction ucs arbitrary: t c) (simp_all add: course_counts_eq percentage_def)

lemma loader_eq:
  "loader (Some u) =
     Inr \<lparr>data_user = u,
          overallProgress =
            percentage (sum_list (map (\<lambda>uc. counted_completed (progress u) (course uc)) (courses u)))
              (sum_list (map (\<lambda>uc. course_total (course uc)) (courses u))),
          data_courses =
            map (\<lambda>uc. Course.extend (course uc)
                   (CourseWithProgress.fields
                      (percentage (counted_completed (progress u) (course uc))
                         (course_total (course uc))))) (courses u)\<rparr>"
  by (simp add: loader_def courses_map_eq percentage_def)

lemma course_progress_extend:
  "course_progress (Course.extend c (CourseWithProgress.fields p)) = p"
  by (simp add: Course.defs CourseWithProgress.defs)

lemma percentage_bounded:
  assumes "c \<le> t"
  shows "\<exists>r. percentage c t = Num r \<and> 0 \<le> r \<and> r \<le> 100"
proof (cases "t > 0")
  case False
  then show ?thesis by (simp add: percentage_def)
next
  case True
  have "(of_nat c :: rat) / of_nat t \<le> of_nat 1" using assms True by simp
  then obtain q where q: "round64 (of_nat c / of_nat t) = Num q" "0 \<le> q" "q \<le> of_nat 1"
    using round64_bounded [of "of_nat c / of_nat t" 1] by auto
  then have "q * 100 \<le> of_nat 100" by simp
  then obtain r where r: "round64 (q * 100) = Num r" "0 \<le> r" "r \<le> of_nat 100"
    using round64_bounded [of "q * 100" 100] by auto
  have "percentage c t = Num r" using True q r by (simp add: percentage_def number_of_count_def)
  then show ?thesis using r by simp
qed

lemma round64_not_NaN: "round64 x \<noteq> NaN"
  by (simp add: round64_def Let_def)

lemma percentage_not_NaN: "percentage c t \<noteq> NaN"
proof (cases "t > 0")
  case False
  then show ?thesis by (simp add: percentage_def)
next
  case True
  show ?thesis
  proof (cases "round64 (of_nat c / of_nat t)")
    case (Num q)
    then show ?thesis using True round64_not_NaN [of "q * 100"]
      by (simp add: percentage_def number_of_count_def)
  next
    case Infinity
    then show ?thesis using True by (simp add: percentage_def number_of_count_def)
  next
    case NaN
    then show ?thesis using round64_not_NaN by blast
  qed
qed

lemma percentage_close:
  assumes "c \<le> t"
  shows "\<exists>r. percentage c t = Num r \<and> \<bar>r - exact_percentage c t\<bar> \<le> 1 / 2 ^ 45"
proof (cases "t > 0")
  case False
  then show ?thesis by (simp add: percentage_def exact_percentage_def)
next
  case True
  let ?x = "(of_nat c :: rat) / of_nat t"
  have x: "0 \<le> ?x" "?x \<le> 1" using assms True by simp_all
  then have "?x < 2 ^ 1" by simp
  from round64_close [OF x(1) this]
  obtain q where q: "round64 ?x = Num q" "\<bar>q - ?x\<bar> \<le> 1 / 2 ^ 53" by auto
  have "?x \<le> of_nat 1" using x by simp
  then have qb: "0 \<le> q" "q \<le> 1" using round64_bounded [of ?x 1] q(1) by auto
  then have y: "0 \<le> q * 100" "q * 100 < 2 ^ 7" by simp_all
  from round64_close [OF y]
  obtain r where r: "round64 (q * 100) = Num r" "\<bar>r - q * 100\<bar> \<le> 1 / 2 ^ 47" by auto
  have "r - ?x * 100 = (r - q * 100) + 100 * (q - ?x)" by simp
  then have "\<bar>r - ?x * 100\<bar> \<le> \<bar>r - q * 100\<bar> + \<bar>100 * (q - ?x)\<bar>"
    by (simp only: abs_triangle_ineq)
  also have "\<dots> = \<bar>r - q * 100\<bar> + 100 * \<bar>q - ?x\<bar>" by (simp only: abs_mult)
  also have "\<dots> \<le> 1 / 2 ^ 47 + 100 * (1 / 2 ^ 53)"
    using q(2) r(2) by (intro add_mono mult_left_mono) simp_all
  also have "\<dots> \<le> 1 / 2 ^ 45" by simp
  finally have "\<bar>r - exact_percentage c t\<bar> \<le> 1 / 2 ^ 45"
    using True by (simp add: exact_percentage_def)
  moreover have "percentage c t = Num r"
    using True q r by (simp add: percentage_def number_of_count_def)
  ultimately show ?thesis by blast
qed

lemma course_completed_le_total: "course_completed ps c \<le> course_total c"
  by (simp add: course_completed_def course_total_def)

lemma percentage_within_rounding:
  "c \<le> t \<Longrightarrow> within_rounding (percentage c t) (exact_percentage c t)"
  using percentage_close [of c t] by (auto simp: within_rounding_def)

lemma floor_rat_numeral: "\<lfloor>numeral a / numeral b :: rat\<rfloor> = numeral a div numeral b"
  by (metis floor_divide_of_int_eq of_int_numeral)

lemmas number_eval = percentage_def number_of_count_def round64_def floor_log2.simps Let_def
  pow2_def round_half_even_def floor_rat_numeral

lemma percentage_3_5: "percentage 3 5 = Num 60"
  by (simp add: number_eval)
lemma percentage_2_4: "percentage 2 4 = Num 50"
  by (simp add: number_eval)
lemma percentage_1_1: "percentage (Suc 0) (Suc 0) = Num 100"
  by (simp add: number_eval)
lemma percentage_3_6: "percentage 3 6 = Num 50"
  by (simp add: number_eval)
lemma percentage_1_2: "percentage (Suc 0) 2 = Num 50"
  by (simp add: number_eval)

lemmas example_defs = example_video_def example_row_def course_A_def course_B_def course_C_def
  course_D_def course_E_def user_AB_def user_AC_def user_DE_def user_E_def

lemmas count_eval = counted_completed_def course_total_def course_videos_def video_completed_def
  course_completed_def

lemma loader_AB:
  "loader (Some user_AB) =
     Inr \<lparr>data_user = user_AB, overallProgress = Num 60,
          data_courses = [Course.extend course_A (CourseWithProgress.fields (Num 50)),
                          Course.extend course_B (CourseWithProgress.fields (Num 100))]\<rparr>"
proof -
  have "counted_completed (progress user_AB) course_A = 2" "course_total course_A = 4"
    "counted_completed (progress user_AB) course_B = 1" "course_total course_B = 1"
    by (simp_all add: count_eval example_defs)
  moreover have "courses user_AB = [\<lparr>course = course_A\<rparr>, \<lparr>course = course_B\<rparr>]"
    by (simp add: user_AB_def)
  ultimately show ?thesis
    by (simp add: loader_eq percentage_3_5 percentage_2_4 percentage_1_1)
qed

lemma loader_AC:
  "loader (Some user_AC) =
     Inr \<lparr>data_user = user_AC, overallProgress = Num 50,
          data_courses = [Course.extend course_A (CourseWithProgress.fields (Num 50)),
                          Course.extend course_C (CourseWithProgress.fields (Num 50))]\<rparr>"
proof -
  have "counted_completed (progress user_AC) course_A = 2" "course_total course_A = 4"
    "counted_completed (progress user_AC) course_C = 1" "course_total course_C = 2"
    by (simp_all add: count_eval example_defs)
  moreover have "courses user_AC = [\<lparr>course = course_A\<rparr>, \<lparr>course = course_C\<rparr>]"
    by (simp add: user_AC_def)
  ultimately show ?thesis
    by (simp add: loader_eq percentage_3_6 percentage_2_4 percentage_1_2)
qed

lemma percentage_1_3: "percentage (Suc 0) 3 = Num (2345624805922133 / 70368744177664)"
  by (simp add: number_eval)

lemma loader_DE:
  "loader (Some user_DE) =
     Inr \<lparr>data_user = user_DE,
          overallProgress = Num (2345624805922133 / 70368744177664),
          data_courses =
            [Course.extend course_D
               (CourseWithProgress.fields (Num (2345624805922133 / 70368744177664))),
             Course.extend course_E (CourseWithProgress.fields (Num 0))]\<rparr>"
proof -
  have "counted_completed (progress user_DE) course_D = 1" "course_total course_D = 3"
    "counted_completed (progress user_DE) course_E = 0" "course_total course_E = 0"
    by (simp_all add: count_eval example_defs)
  moreover have "courses user_DE = [\<lparr>course = course_D\<rparr>, \<lparr>course = course_E\<rparr>]"
    by (simp add: user_DE_def)
  moreover have "percentage 0 0 = Num 0" by (simp add: percentage_def)
  ultimately show ?thesis
    by (simp add: loader_eq percentage_1_3)
qed

lemma mean_50_100: "mean_of_percentages [Num 50, Num 100] = Num 75"
  by (simp add: mean_of_percentages_def)

lemma mean_50_50: "mean_of_percentages [Num 50, Num 50] = Num 50"
  by (simp add: mean_of_percentages_def)

text \<open>
  Claim C1 as stated says that the overall percentage is not the mean of the
  per-course percentages whenever course sizes differ. Course A has 4 videos, 2 of
  them completed, and course C has 2 videos, 1 completed: the sizes differ, and the
  overall percentage 50 is the mean of 50 and 50.
\<close>

theorem overallProgress_equals_mean_counterexample:
  "course_total course_A = 4 \<and> course_total course_C = 2 \<and>
   loader (Some user_AC) =
     Inr \<lparr>data_user = user_AC, overallProgress = Num 50,
          data_courses = [Course.extend course_A (CourseWithProgress.fields (Num 50)),
                          Course.extend course_C (CourseWithProgress.fields (Num 50))]\<rparr> \<and>
   mean_of_percentages [Num 50, Num 50] = Num 50"
  using loader_AC mean_50_50 by (simp add: count_eval example_defs)

text \<open>
  Claim C1, as amended. With at most one progress record per video, the overall
  percentage is the percentage of the summed counts: the completed videos of all
  enrolled courses over the videos of all enrolled courses, times 100 (and 0 when
  there is no video). It is not computed as the mean of the per-course percentages:
  for course A with 2 of 4 videos completed and course B with its 1 video completed
  the loader returns 60, where the mean of 50 and 100 is 75.
\<close>

theorem overallProgress_sum_over_sum:
  "(one_record_per_video (progress u) \<longrightarrow>
      (\<exists>d. loader (Some u) = Inr d \<and>
           overallProgress d =
             percentage
               (sum_list (map (\<lambda>uc. course_completed (progress u) (course uc)) (courses u)))
               (sum_list (map (\<lambda>uc. course_total (course uc)) (courses u))))) \<and>
   loader (Some user_AB) =
     Inr \<lparr>data_user = user_AB, overallProgress = Num 60,
          data_courses = [Course.extend course_A (CourseWithProgress.fields (Num 50)),
                          Course.extend course_B (CourseWithProgress.fields (Num 100))]\<rparr> \<and>
   mean_of_percentages [Num 50, Num 100] = Num 75"
  using loader_AB mean_50_100 by (simp add: loader_eq counted_completed_unique)

text \<open>The user enrolled in the courses A and B: 3 of 5 videos.\<close>

theorem overallProgress_sum_over_sum_witness:
  "one_record_per_video (progress user_AB) \<and>
   (\<exists>d. loader (Some user_AB) = Inr d \<and> overallProgress d = Num 60)"
proof -
  have h: "one_record_per_video (progress user_AB)"
    by (simp add: one_record_per_video_def example_defs)
  have "sum_list (map (\<lambda>uc. course_completed (progress user_AB) (course uc)) (courses user_AB)) = 3"
    "sum_list (map (\<lambda>uc. course_total (course uc)) (courses user_AB)) = 5"
    by (simp_all add: count_eval example_defs)
  then show ?thesis using h overallProgress_sum_over_sum [of user_AB] by (simp add: percentage_3_5)
qed

text \<open>
  Claim C2. With at most one progress record per video, the percentage of every course
  is \<open>completed / total * 100\<close> when the course has a video and exactly \<open>0\<close> when it has
  none: it is the rounded quotient multiplied by 100 and rounded again, a finite number
  within \<open>2^-45\<close> of the exact value of \<open>completed / total * 100\<close>. The same holds for
  the overall percentage with the summed counts, which is \<open>0\<close> when the enrolled courses
  have no video at all. No percentage is \<open>NaN\<close>. For course D with 1 of 3 videos
  completed and the empty course E, the loader returns the binary64 number nearest
  \<open>33.33333333333333\<close> for D and overall, and \<open>0\<close> for E.
\<close>

theorem courseProgress_zero_policy:
  "(one_record_per_video (progress u) \<longrightarrow>
     (\<exists>d. loader (Some u) = Inr d \<and>
       map course_progress (data_courses d) =
         map (\<lambda>uc. if course_total (course uc) > 0
                    then number_times
                           (number_divide
                              (number_of_count (course_completed (progress u) (course uc)))
                              (number_of_count (course_total (course uc))))
                           (Num 100)
                    else Num 0) (courses u) \<and>
       list_all2
         (\<lambda>p uc. within_rounding p
            (exact_percentage (course_completed (progress u) (course uc))
               (course_total (course uc))))
         (map course_progress (data_courses d)) (courses u) \<and>
       within_rounding (overallProgress d)
         (exact_percentage
            (sum_list (map (\<lambda>uc. course_completed (progress u) (course uc)) (courses u)))
            (sum_list (map (\<lambda>uc. course_total (course uc)) (courses u)))) \<and>
       list_all (\<lambda>p. p \<noteq> NaN) (map course_progress (data_courses d)) \<and>
       overallProgress d \<noteq> NaN \<and>
       (sum_list (map (\<lambda>uc. course_total (course uc)) (courses u)) = 0 \<longrightarrow>
          overallProgress d = Num 0))) \<and>
   loader (Some user_DE) =
     Inr \<lparr>data_user = user_DE,
          overallProgress = Num (2345624805922133 / 70368744177664),
          data_courses =
            [Course.extend course_D
               (CourseWithProgress.fields (Num (2345624805922133 / 70368744177664))),
             Course.extend course_E (CourseWithProgress.fields (Num 0))]\<rparr>"
proof (intro conjI impI)
  assume a: "one_record_per_video (progress u)"
  let ?C = "sum_list (map (\<lambda>uc. course_completed (progress u) (course uc)) (courses u))"
  let ?T = "sum_list (map (\<lambda>uc. course_total (course uc)) (courses u))"
  let ?d = "\<lparr>data_user = u,
          overallProgress = percentage ?C ?T,
          data_courses =
            map (\<lambda>uc. Course.extend (course uc)
                   (CourseWithProgress.fields
                      (percentage (course_completed (progress u) (course uc))
                         (course_total (course uc))))) (courses u)\<rparr>"
  have l: "loader (Some u) = Inr ?d"
    using a by (simp add: loader_eq counted_completed_unique)
  have m: "map course_progress (data_courses ?d) =
             map (\<lambda>uc. percentage (course_completed (progress u) (course uc))
                    (course_total (course uc))) (courses u)"
    by (simp add: o_def course_progress_extend)
  then have 1: "map course_progress (data_courses ?d) =
         map (\<lambda>uc. if course_total (course uc) > 0
                    then number_times
                           (number_divide
                              (number_of_count (course_completed (progress u) (course uc)))
                              (number_of_count (course_total (course uc))))
                           (Num 100)
                    else Num 0) (courses u)"
    by (simp add: percentage_def)
  have 2: "list_all2
         (\<lambda>p uc. within_rounding p
            (exact_percentage (course_completed (progress u) (course uc))
               (course_total (course uc))))
         (map course_progress (data_courses ?d)) (courses u)"
    unfolding m
    by (simp add: list_all2_map1 list_all2_same percentage_within_rounding
        course_completed_le_total)
  have "?C \<le> ?T" by (intro sum_list_mono course_completed_le_total)
  then have 3: "within_rounding (overallProgress ?d) (exact_percentage ?C ?T)"
    by (simp add: percentage_within_rounding)
  have 4: "list_all (\<lambda>p. p \<noteq> NaN) (map course_progress (data_courses ?d))"
    unfolding m by (simp add: list_all_iff percentage_not_NaN)
  have 5: "overallProgress ?d \<noteq> NaN" by (simp add: percentage_not_NaN)
  have 6: "?T = 0 \<longrightarrow> overallProgress ?d = Num 0"
    by (simp add: percentage_def del: sum_list_eq_0_iff)
  show "\<exists>d. loader (Some u) = Inr d \<and>
       map course_progress (data_courses d) =
         map (\<lambda>uc. if course_total (course uc) > 0
                    then number_times
                           (number_divide
                              (number_of_count (course_completed (progress u) (course uc)))
                              (number_of_count (course_total (course uc))))
                           (Num 100)
                    else Num 0) (courses u) \<and>
       list_all2
         (\<lambda>p uc. within_rounding p
            (exact_percentage (course_completed (progress u) (course uc))
               (course_total (course uc))))
         (map course_progress (data_courses d)) (courses u) \<and>
       within_rounding (overallProgress d) (exact_percentage ?C ?T) \<and>
       list_all (\<lambda>p. p \<noteq> NaN) (map course_progress (data_courses d)) \<and>
       overallProgress d \<noteq> NaN \<and>
       (?T = 0 \<longrightarrow> overallProgress d = Num 0)"
    by (intro exI [of _ ?d] conjI l 1 2 3 4 5 6)
next
  show "loader (Some user_DE) =
     Inr \<lparr>data_user = user_DE,
          overallProgress = Num (2345624805922133 / 70368744177664),
          data_courses =
            [Course.extend course_D
               (CourseWithProgress.fields (Num (2345624805922133 / 70368744177664))),
             Course.extend course_E (CourseWithProgress.fields (Num 0))]\<rparr>"
    by (rule loader_DE)
qed

text \<open>
  The user enrolled in the courses A and B (50, 100 and overall 60, each the exact
  value), and a user enrolled in a course without videos.
\<close>

theorem courseProgress_zero_policy_witness:
  "one_record_per_video (progress user_AB) \<and>
   (\<exists>d. loader (Some user_AB) = Inr d \<and>
      map course_progress (data_courses d) = [Num 50, Num 100] \<and>
      within_rounding (Num 50) (exact_percentage 2 4) \<and>
      within_rounding (Num 100) (exact_percentage 1 1) \<and>
      overallProgress d = Num 60 \<and> within_rounding (Num 60) (exact_percentage 3 5)) \<and>
   one_record_per_video (progress user_E) \<and>
   (\<exists>d. loader (Some user_E) = Inr d \<and> map course_progress (data_courses d) = [Num 0] \<and>
      overallProgress d = Num 0)"
proof -
  have h: "one_record_per_video (progress user_AB)" "one_record_per_video (progress user_E)"
    by (simp_all add: one_record_per_video_def example_defs)
  have e: "course_total course_E = 0" "courses user_E = [\<lparr>course = course_E\<rparr>]"
    by (simp_all add: count_eval example_defs)
  have w: "within_rounding (Num 50) (exact_percentage 2 4)"
    "within_rounding (Num 100) (exact_percentage 1 1)"
    "within_rounding (Num 60) (exact_percentage 3 5)"
    by (simp_all add: within_rounding_def exact_percentage_def)
  have ab: "\<exists>d. loader (Some user_AB) = Inr d \<and>
      map course_progress (data_courses d) = [Num 50, Num 100] \<and> overallProgress d = Num 60"
    using courseProgress_zero_policy [of user_AB] by (simp add: loader_AB course_progress_extend)
  have ee: "\<exists>d. loader (Some user_E) = Inr d \<and> map course_progress (data_courses d) = [Num 0] \<and>
      overallProgress d = Num 0"
    using h(2) e courseProgress_zero_policy [of user_E] by auto
  show ?thesis using h w ab ee by simp
qed

text \<open>
  Claim C9. Every per-course percentage and the overall percentage is a finite number
  between 0 and 100: each video is counted at most once, so the completed count never
  exceeds the total, and rounding keeps the quotient within 0 and 1 and the product
  within 0 and 100. This holds for every list of progress rows, in particular for one
  with at most one record per video.
\<close>

theorem percentages_bounded:
  "\<exists>d. loader (Some u) = Inr d \<and> within_0_100 (overallProgress d) \<and>
        list_all within_0_100 (map course_progress (data_courses d))"
proof -
  have w: "within_0_100 (percentage c t)" if "c \<le> t" for c t
    using percentage_bounded [OF that] by (auto simp: within_0_100_def)
  have "sum_list (map (\<lambda>uc. counted_completed (progress u) (course uc)) (courses u))
          \<le> sum_list (map (\<lambda>uc. course_total (course uc)) (courses u))"
    by (intro sum_list_mono counted_le_total)
  then show ?thesis
    by (simp add: loader_eq o_def course_progress_extend list_all_iff w counted_le_total)
qed

text \<open>The percentages of the user enrolled in the courses A and B.\<close>

theorem percentages_bounded_witness:
  "within_0_100 (Num 60) \<and> list_all within_0_100 [Num 50, Num 100] \<and>
   (\<exists>d. loader (Some user_AB) = Inr d \<and> overallProgress d = Num 60 \<and>
      map course_progress (data_courses d) = [Num 50, Num 100])"
  using percentages_bounded [of user_AB] loader_AB
  by (simp add: within_0_100_def course_progress_extend)

end
